theory Spec2Isabelle
  imports Main "HOL-Library.Sublist" "HOL-Library.AList"
begin

section \<open>Values\<close>

text \<open>
  The program works on the values a JSON document is parsed into.  An object is the list
  of its own properties in insertion order (a JavaScript object has distinct keys; the
  engine's habit of listing integer-like keys first is not modelled), \<open>JUndef\<close> is
  \<^verbatim>\<open>undefined\<close>, the value of a missing property.  Numbers are integers: nothing in the
  program computes with them, it only tests whether one is zero.
\<close>

datatype json =
    JUndef
  | JNull
  | JBool bool
  | JNum int
  | JStr string
  | JArr "json list"
  | JObj "(string \<times> json) list"

datatype error =
    InvalidReferenceRoot
  | InvalidReferenceTarget
  | ReferenceNotFound string
  | TypeError

text \<open>
  The four errors: the three the source throws itself, with the messages
  \<^verbatim>\<open>Schema reference must start with document root (#)\<close>,
  \<^verbatim>\<open>Schema reference must be reference to #/definitions\<close> and
  \<^verbatim>\<open>Reference to ... does not exist\<close>, and the \<^verbatim>\<open>TypeError\<close> of the language when a
  property of \<^verbatim>\<open>null\<close> or \<^verbatim>\<open>undefined\<close> is read, a missing method is called or a
  property of a primitive is assigned (the module is in strict mode).
\<close>

fun truthy :: "json \<Rightarrow> bool" where
  "truthy JUndef = False"
| "truthy JNull = False"
| "truthy (JBool b) = b"
| "truthy (JNum n) = (n \<noteq> 0)"
| "truthy (JStr s) = (s \<noteq> [])"
| "truthy (JArr xs) = True"
| "truthy (JObj kvs) = True"

definition nullish :: "json \<Rightarrow> bool" where
  "nullish v = (v = JNull \<or> v = JUndef)"

text \<open>\<^verbatim>\<open>typeof v === 'object'\<close> for a truthy \<open>v\<close>, and \<^verbatim>\<open>_.isObject(v)\<close>.\<close>

fun isObject :: "json \<Rightarrow> bool" where
  "isObject (JArr xs) = True"
| "isObject (JObj kvs) = True"
| "isObject v = False"

fun isArray :: "json \<Rightarrow> bool" where
  "isArray (JArr xs) = True"
| "isArray v = False"

definition bindE :: "'e + 'a \<Rightarrow> ('a \<Rightarrow> 'e + 'b) \<Rightarrow> 'e + 'b" where
  "bindE m f = (case m of Inl e \<Rightarrow> Inl e | Inr x \<Rightarrow> f x)"

subsection \<open>Strings\<close>

text \<open>\<^verbatim>\<open>s.split('/')\<close>: always at least one segment, \<^verbatim>\<open>''.split('/')\<close> is \<^verbatim>\<open>['']\<close>.\<close>

fun split :: "char \<Rightarrow> string \<Rightarrow> string list" where
  "split c [] = [[]]"
| "split c (x # xs) =
     (if x = c then [] # split c xs
      else (case split c xs of [] \<Rightarrow> [[x]] | p # ps \<Rightarrow> (x # p) # ps))"

text \<open>\<^verbatim>\<open>xs.join('/')\<close>.\<close>

fun join :: "char \<Rightarrow> string list \<Rightarrow> string" where
  "join c [] = []"
| "join c [x] = x"
| "join c (x # y # ys) = x @ c # join c (y # ys)"

definition digit_char :: "nat \<Rightarrow> char" where
  "digit_char d = ''0123456789'' ! d"

text \<open>\<^verbatim>\<open>String(n)\<close> for an array index \<open>n\<close>.\<close>

fun show_nat :: "nat \<Rightarrow> string" where
  "show_nat n = (if n < 10 then [digit_char n] else show_nat (n div 10) @ [digit_char (n mod 10)])"

declare show_nat.simps [simp del]

subsection \<open>Properties\<close>

text \<open>
  The own enumerable properties of a value, as \<^verbatim>\<open>Object.keys\<close>, \<^verbatim>\<open>Object.values\<close> and
  lodash's \<^verbatim>\<open>omit\<close> see them: the entries of an object, the elements of an array under
  their indices, the characters of a string under theirs, none for a number or a boolean.
\<close>

fun own_entries :: "json \<Rightarrow> (string \<times> json) list" where
  "own_entries (JObj kvs) = kvs"
| "own_entries (JArr xs) = zip (map show_nat [0..<length xs]) xs"
| "own_entries (JStr s) = zip (map show_nat [0..<length s]) (map (\<lambda>c. JStr [c]) s)"
| "own_entries v = []"

text \<open>
  \<^verbatim>\<open>value[key]\<close> for a key computed at run time.  Reading a property of \<^verbatim>\<open>null\<close> or
  \<^verbatim>\<open>undefined\<close> throws.  Members inherited from a prototype (\<^verbatim>\<open>length\<close>,
  \<^verbatim>\<open>constructor\<close>, \<^verbatim>\<open>toString\<close>, ...) are not modelled: a key is taken not to name one.
\<close>

definition get :: "json \<Rightarrow> string \<Rightarrow> error + json" where
  "get v k =
     (if nullish v then Inl TypeError
      else Inr (case map_of (own_entries v) k of None \<Rightarrow> JUndef | Some x \<Rightarrow> x))"

text \<open>
  \<^verbatim>\<open>value.name\<close> for one of the names the source spells out (\<^verbatim>\<open>$ref\<close>, \<^verbatim>\<open>type\<close>,
  \<^verbatim>\<open>allOf\<close>, \<^verbatim>\<open>definitions\<close>, ...), on a value already known not to be \<^verbatim>\<open>null\<close> or
  \<^verbatim>\<open>undefined\<close>.  None of these names is an index, so only an object can have one.
\<close>

fun field :: "json \<Rightarrow> string \<Rightarrow> json" where
  "field (JObj kvs) k = (case map_of kvs k of None \<Rightarrow> JUndef | Some x \<Rightarrow> x)"
| "field v k = JUndef"

section \<open>Resolving a reference\<close>

text \<open>
  The loop of \<^verbatim>\<open>lookupReference\<close>.  The source reverses the segments and pops them from
  the end, which reads them front to back; \<open>cur\<close> is \<^verbatim>\<open>currentDepth\<close> before the step.
  \<^verbatim>\<open>depth && depth === currentDepth\<close> never holds for a missing or zero \<open>depth\<close>.
\<close>

fun walk :: "string list \<Rightarrow> json \<Rightarrow> nat option \<Rightarrow> nat \<Rightarrow> error + json" where
  "walk [] v depth cur = Inr v"
| "walk (key # parts) v depth cur =
     (if v = JUndef then Inr v
      else (case get v key of
              Inl e \<Rightarrow> Inl e
            | Inr v' \<Rightarrow>
                (if depth \<noteq> Some 0 \<and> depth = Some (cur + 1) then Inr v'
                 else walk parts v' depth (cur + 1))))"

text \<open>
  \<^verbatim>\<open>lookupReference(reference, root, depth)\<close>.  The reference is whatever value a
  \<^verbatim>\<open>$ref\<close> key held: only a string has \<^verbatim>\<open>split\<close>.  The returned id is
  \<^verbatim>\<open>parts[parts.length - 1]\<close> after the two pops: the third segment, \<^verbatim>\<open>undefined\<close>
  (\<open>None\<close>) when there is none.
\<close>

definition lookupReference :: "json \<Rightarrow> json \<Rightarrow> nat option \<Rightarrow> error + (string option \<times> json)" where
  "lookupReference reference root depth =
     (case reference of
        JStr s \<Rightarrow>
          (case split (CHR ''/'') s of
             [] \<Rightarrow> Inl InvalidReferenceRoot
           | p0 # ps \<Rightarrow>
               if p0 \<noteq> ''#'' then Inl InvalidReferenceRoot
               else (case ps of
                       [] \<Rightarrow> Inl InvalidReferenceTarget
                     | p1 # parts \<Rightarrow>
                         if p1 \<noteq> ''definitions'' then Inl InvalidReferenceTarget
                         else if nullish root then Inl TypeError
                         else bindE (walk parts (field root ''definitions'') depth 2) (\<lambda>v.
                           if v = JUndef then Inl (ReferenceNotFound s)
                           else Inr (case parts of [] \<Rightarrow> None | i # _ \<Rightarrow> Some i, v))))
      | _ \<Rightarrow> Inl TypeError)"


text \<open>The third segment of a reference, if it has one.\<close>

definition third_segment :: "string list \<Rightarrow> string option" where
  "third_segment segs = (case segs of a # b # i # rest \<Rightarrow> Some i | _ \<Rightarrow> None)"

text \<open>The document of the specification's examples for \<^verbatim>\<open>lookupReference\<close>.\<close>

definition name_schema :: json where
  "name_schema = JObj [(''type'', JStr ''string'')]"

definition user_schema :: json where
  "user_schema = JObj [(''type'', JStr ''object''), (''properties'', JObj [(''name'', name_schema)])]"

definition user_root :: json where
  "user_root = JObj [(''definitions'', JObj [(''User'', user_schema)])]"

section \<open>Dereferencing a value\<close>

text \<open>\<^verbatim>\<open>xs || []\<close> for an optional array.\<close>

definition orEmpty :: "'a list option \<Rightarrow> 'a list" where
  "orEmpty xs = (case xs of None \<Rightarrow> [] | Some ys \<Rightarrow> ys)"

text \<open>
  \<^verbatim>\<open>pathHasCircularReference(paths, path, reference)\<close>.  \<^verbatim>\<open>find\<close> returns the path it
  found, and the source tests that path for truthiness: an empty string counts as not found.
\<close>

definition pathHasCircularReference :: "string list option \<Rightarrow> string list option \<Rightarrow> string \<Rightarrow> bool" where
  "pathHasCircularReference paths path reference =
     (if prefix reference (join (CHR ''/'') (orEmpty path)) then True
      else (case find (\<lambda>p. prefix reference p) (orEmpty paths) of
              Some p \<Rightarrow> p \<noteq> []
            | None \<Rightarrow> False))"

text \<open>
  The pairs lodash's \<^verbatim>\<open>forEach\<close> visits.  It treats a value as array-like when its
  \<^verbatim>\<open>length\<close> is an integer from 0 to \<^verbatim>\<open>Number.MAX_SAFE_INTEGER\<close>, and then visits the
  indices below the length, reading each as a property, whether it exists or not.
\<close>

fun forEach_entries :: "json \<Rightarrow> (string \<times> json) list" where
  "forEach_entries (JObj kvs) =
     (case map_of kvs ''length'' of
        Some (JNum n) \<Rightarrow>
          if 0 \<le> n \<and> n \<le> 9007199254740991
          then map (\<lambda>i. (show_nat i, field (JObj kvs) (show_nat i))) [0..<nat n]
          else kvs
      | _ \<Rightarrow> kvs)"
| "forEach_entries v = own_entries v"

text \<open>Mapping a function that may throw: the first error ends the loop.\<close>

fun mapE :: "('a \<Rightarrow> 'e + 'b) \<Rightarrow> 'a list \<Rightarrow> 'e + 'b list" where
  "mapE f [] = Inr []"
| "mapE f (x # xs) = bindE (f x) (\<lambda>y. bindE (mapE f xs) (\<lambda>ys. Inr (y # ys)))"

lemma bindE_cong [fundef_cong]:
  "m = m' \<Longrightarrow> (\<And>x. m' = Inr x \<Longrightarrow> f x = f' x) \<Longrightarrow> bindE m f = bindE m' f'"
  by (auto simp: bindE_def split: sum.splits)

lemma mapE_cong [fundef_cong]:
  "xs = ys \<Longrightarrow> (\<And>x. x \<in> set ys \<Longrightarrow> f x = g x) \<Longrightarrow> mapE f xs = mapE g ys"
  by (induction ys arbitrary: xs) (auto simp: bindE_def)

text \<open>\<^verbatim>\<open>example.$ref && _.isString(example.$ref)\<close>, and the string itself.\<close>

definition isReference :: "json \<Rightarrow> bool" where
  "isReference example = (case field example ''$ref'' of JStr r \<Rightarrow> r \<noteq> [] | _ \<Rightarrow> False)"

definition refString :: "json \<Rightarrow> string" where
  "refString example = (case field example ''$ref'' of JStr r \<Rightarrow> r | _ \<Rightarrow> [])"

text \<open>
  \<^verbatim>\<open>result[key] = v\<close> for each pair in turn, from the empty object.  Assigning to
  \<^verbatim>\<open>__proto__\<close> sets the prototype of the object, or does nothing, and creates no own
  property: that pair leaves no entry.
\<close>

definition assign_all :: "(string \<times> json) list \<Rightarrow> (string \<times> json) list" where
  "assign_all kvs =
     foldl (\<lambda>result (key, v). if key = ''__proto__'' then result else AList.update key v result) [] kvs"

text \<open>
  \<^verbatim>\<open>dereference(example, root, paths, path)\<close>; \<open>None\<close> is an argument left out.
\<close>

function dereference :: "json \<Rightarrow> json \<Rightarrow> string list option \<Rightarrow> string list option \<Rightarrow> error + json" where
  "dereference example root paths path =
     (if nullish example then Inr example
      else if isReference example then
        (if path \<noteq> None \<and> pathHasCircularReference paths path (refString example) then Inr JNull
         else bindE (lookupReference (JStr (refString example)) root None) (\<lambda>ref.
                dereference (snd ref) root
                  (Some (orEmpty paths @ [join (CHR ''/'') (orEmpty path)]))
                  (Some (split (CHR ''/'') (refString example)))))
      else (case example of
              JArr xs \<Rightarrow>
                bindE (mapE (\<lambda>value. dereference value root paths path) xs) (\<lambda>ys. Inr (JArr ys))
            | JObj kvs \<Rightarrow>
                bindE (mapE (\<lambda>kv. bindE (dereference (snd kv) root paths (Some (orEmpty path @ [fst kv])))
                                     (\<lambda>v. Inr (fst kv, v)))
                            (forEach_entries example))
                      (\<lambda>kvs'. Inr (JObj (assign_all kvs')))
            | _ \<Rightarrow> Inr example))"
  by pat_completeness auto

subsection \<open>Termination of \<open>dereference\<close>\<close>

text \<open>
  Every string of a value, with the characters of each string (indexing a string yields
  one).  The references a call can meet are among the strings of its value and of the root.
\<close>

fun strs :: "json \<Rightarrow> string set" where
  "strs (JStr s) = insert s ((\<lambda>c. [c]) ` set s)"
| "strs (JArr xs) = (\<Union>x\<in>set xs. strs x)"
| "strs (JObj kvs) = (\<Union>x\<in>set kvs. strs (snd x))"
| "strs v = {}"

lemma finite_strs: "finite (strs v)"
  by (induction v rule: strs.induct) auto

lemma strs_own_entries: "(k, v) \<in> set (own_entries x) \<Longrightarrow> strs v \<subseteq> strs x"
  by (cases x) (auto dest!: set_zip_rightD)

lemma strs_field: "strs (field x k) \<subseteq> strs x"
  by (cases x) (auto split: option.splits dest!: map_of_SomeD)

lemma strs_get: "get x k = Inr v \<Longrightarrow> strs v \<subseteq> strs x"
  using strs_own_entries[of k v x]
  by (auto simp: get_def split: if_splits option.splits dest!: map_of_SomeD)

lemma strs_walk: "walk parts v d c = Inr w \<Longrightarrow> strs w \<subseteq> strs v"
proof (induction parts v d c rule: walk.induct)
  case (1 v depth cur)
  then show ?case by simp
next
  case (2 key parts v depth cur)
  then show ?case
    by (auto split: if_splits sum.splits dest!: strs_get)
qed

lemma lookupReference_walk:
  "lookupReference r root d = Inr (i, v) \<Longrightarrow>
     \<exists>parts. walk parts (field root ''definitions'') d 2 = Inr v"
  by (auto simp: lookupReference_def bindE_def simp del: walk.simps
           split: json.splits list.splits if_splits sum.splits)

lemma strs_lookupReference: "lookupReference r root d = Inr (i, v) \<Longrightarrow> strs v \<subseteq> strs root"
  using strs_field[of root "''definitions''"] by (blast dest: lookupReference_walk strs_walk)

lemma split_not_Nil: "split c s \<noteq> []"
  by (induction s) (auto split: list.splits)

lemma join_split: "join c (split c s) = s"
proof (induction s)
  case Nil
  then show ?case by simp
next
  case (Cons x xs)
  then show ?case
    using split_not_Nil[of c xs]
    by (cases "split c xs"; cases "tl (split c xs)") (auto)
qed

lemma join_snoc: "join c (p @ [k]) = (if p = [] then k else join c p @ c # k)"
  by (induction c p rule: join.induct) auto

lemma prefix_join_snoc: "prefix (join c p) (join c (p @ [k]))"
  by (simp add: join_snoc)


lemma size_own_entries_obj: "(k, v) \<in> set kvs \<Longrightarrow> size v < size (JObj kvs)"
  by (induction kvs) auto

lemma size_field_obj: "field (JObj kvs) k \<noteq> JUndef \<Longrightarrow> size (field (JObj kvs) k) < size (JObj kvs)"
  by (auto split: option.splits dest!: map_of_SomeD size_own_entries_obj)

lemma size_field_le: "size (field (JObj kvs) k) < size (JObj kvs)"
  by (cases "field (JObj kvs) k = JUndef") (use size_field_obj in auto)

lemma size_elem_arr: "x \<in> set xs \<Longrightarrow> size x < size (JArr xs)"
  by (induction xs) auto

lemma size_forEach_entries:
  "(k, v) \<in> set (forEach_entries (JObj kvs)) \<Longrightarrow> size v < size (JObj kvs)"
  using size_field_le size_own_entries_obj
  by (fastforce split: option.splits json.splits if_splits)

lemma strs_forEach_entries:
  "(k, v) \<in> set (forEach_entries (JObj kvs)) \<Longrightarrow> strs v \<subseteq> strs (JObj kvs)"
  using strs_field[of "JObj kvs"] strs_own_entries[of _ _ "JObj kvs"]
  by (fastforce split: option.splits json.splits if_splits)

lemma isReference_strs: "isReference example \<Longrightarrow> refString example \<in> strs example \<and> refString example \<noteq> []"
  using strs_field[of example "''$ref''"]
  by (auto simp: isReference_def refString_def split: json.splits)

text \<open>
  A reference is covered when the current path or a recorded path starts with it: the cycle
  test then stops the recursion.  Following a reference covers it for good, a step into an
  array or an object uncovers nothing, so the number of uncovered references, then the size
  of the value, decrease.  Before the first step \<open>path\<close> is missing and the test is skipped.
\<close>

definition covered :: "string list option \<Rightarrow> string list option \<Rightarrow> string \<Rightarrow> bool" where
  "covered paths path r =
     (prefix r (join (CHR ''/'') (orEmpty path)) \<or> (\<exists>p\<in>set (orEmpty paths). prefix r p))"

lemma not_circular_not_covered:
  "\<not> pathHasCircularReference paths path r \<Longrightarrow> r \<noteq> [] \<Longrightarrow> \<not> covered paths path r"
  by (auto simp: pathHasCircularReference_def covered_def find_None_iff find_Some_iff
           split: if_splits option.splits)

definition uncovered :: "json \<Rightarrow> json \<Rightarrow> string list option \<Rightarrow> string list option \<Rightarrow> string set" where
  "uncovered example root paths path = {r \<in> strs example \<union> strs root. \<not> covered paths path r}"

lemma finite_uncovered: "finite (uncovered example root paths path)"
  by (simp add: uncovered_def finite_strs)

definition deref_measure :: "json \<times> json \<times> string list option \<times> string list option \<Rightarrow> nat \<times> nat \<times> nat" where
  "deref_measure = (\<lambda>(example, root, paths, path).
     (if path = None then 1 else 0, card (uncovered example root paths path), size example))"

lemma uncovered_follow:
  assumes "isReference example" "\<not> pathHasCircularReference paths (Some p) (refString example)"
    and "strs referenced \<subseteq> strs root"
  shows "uncovered referenced root (Some (orEmpty paths @ [join (CHR ''/'') p]))
            (Some (split (CHR ''/'') (refString example)))
         \<subset> uncovered example root paths (Some p)"
proof -
  let ?r = "refString example"
  have r: "?r \<in> strs example" "?r \<noteq> []" using isReference_strs[OF assms(1)] by auto
  have unc: "\<not> covered paths (Some p) ?r" using not_circular_not_covered[OF assms(2) r(2)] .
  have "?r \<in> uncovered example root paths (Some p)" using r unc by (simp add: uncovered_def)
  moreover have "?r \<notin> uncovered referenced root (Some (orEmpty paths @ [join (CHR ''/'') p]))
            (Some (split (CHR ''/'') ?r))"
    by (simp add: uncovered_def covered_def orEmpty_def join_split)
  moreover have "uncovered referenced root (Some (orEmpty paths @ [join (CHR ''/'') p]))
            (Some (split (CHR ''/'') ?r)) \<subseteq> uncovered example root paths (Some p)"
    using assms(3) by (auto simp: uncovered_def covered_def orEmpty_def)
  ultimately show ?thesis by blast
qed

lemma uncovered_descend:
  assumes "strs v \<subseteq> strs example"
  shows "uncovered v root paths (Some (p @ [k])) \<subseteq> uncovered example root paths (Some p)"
  using assms prefix_join_snoc[of "CHR ''/''" p k]
  by (auto simp: uncovered_def covered_def orEmpty_def dest: prefix_order.trans)

lemma uncovered_same:
  assumes "strs v \<subseteq> strs example"
  shows "uncovered v root paths path \<subseteq> uncovered example root paths path"
  using assms by (auto simp: uncovered_def)

termination dereference
proof (relation "inv_image (less_than <*lex*> less_than <*lex*> less_than) deref_measure")
  show "wf (inv_image (less_than <*lex*> less_than <*lex*> less_than) deref_measure)"
    by (intro wf_inv_image wf_lex_prod wf_less_than)
next
  fix example root :: json and paths path :: "string list option" and x :: "string option \<times> json"
  assume a: "isReference example"
    "\<not> (path \<noteq> None \<and> pathHasCircularReference paths path (refString example))"
    "lookupReference (JStr (refString example)) root None = Inr x"
  have sub: "strs (snd x) \<subseteq> strs root"
    using strs_lookupReference[of _ root None "fst x" "snd x"] a(3) by simp
  show "((snd x, root, Some (orEmpty paths @ [join (CHR ''/'') (orEmpty path)]),
            Some (split (CHR ''/'') (refString example))),
           example, root, paths, path)
          \<in> inv_image (less_than <*lex*> less_than <*lex*> less_than) deref_measure"
  proof (cases path)
    case None
    then show ?thesis by (simp add: deref_measure_def)
  next
    case (Some p)
    then have "\<not> pathHasCircularReference paths (Some p) (refString example)" using a(2) by simp
    from uncovered_follow[OF a(1) this sub] Some
    show ?thesis
      by (simp add: deref_measure_def orEmpty_def psubset_card_mono finite_uncovered)
  qed
next
  fix example root :: json and paths path :: "string list option" and xs :: "json list" and xa :: json
  assume a: "example = JArr xs" "xa \<in> set xs"
  have "strs xa \<subseteq> strs example" using a by auto
  then have "card (uncovered xa root paths path) \<le> card (uncovered example root paths path)"
    by (intro card_mono finite_uncovered uncovered_same)
  moreover have "size xa < size example" using a size_elem_arr by simp
  ultimately show "((xa, root, paths, path), example, root, paths, path)
          \<in> inv_image (less_than <*lex*> less_than <*lex*> less_than) deref_measure"
    by (auto simp: deref_measure_def)
next
  fix example root :: json and paths path :: "string list option" and kvs :: "(string \<times> json) list"
    and xa :: "string \<times> json"
  assume a: "example = JObj kvs" "xa \<in> set (forEach_entries example)"
  then have m: "(fst xa, snd xa) \<in> set (forEach_entries (JObj kvs))" by simp
  have s: "strs (snd xa) \<subseteq> strs example" "size (snd xa) < size example"
    using strs_forEach_entries[OF m] size_forEach_entries[OF m] a(1) by auto
  show "((snd xa, root, paths, Some (orEmpty path @ [fst xa])), example, root, paths, path)
          \<in> inv_image (less_than <*lex*> less_than <*lex*> less_than) deref_measure"
  proof (cases path)
    case None
    then show ?thesis by (simp add: deref_measure_def)
  next
    case (Some p)
    have "card (uncovered (snd xa) root paths (Some (p @ [fst xa])))
            \<le> card (uncovered example root paths (Some p))"
      by (intro card_mono finite_uncovered uncovered_descend s)
    then show ?thesis using s(2) Some by (auto simp: deref_measure_def orEmpty_def)
  qed
qed

declare dereference.simps [simp del]




section \<open>Converting a schema node\<close>

text \<open>The keys \<^verbatim>\<open>_.omit\<close> drops, and the test \<^verbatim>\<open>_.omitBy\<close> drops keys by.\<close>

definition omitted_keys :: "string list" where
  "omitted_keys = [''discriminator'', ''readOnly'', ''xml'', ''externalDocs'', ''example'']"

definition isExtension :: "string \<Rightarrow> bool" where
  "isExtension key = prefix ''x-'' key"

text \<open>
  lodash's \<^verbatim>\<open>omit\<close> and \<^verbatim>\<open>omitBy\<close> build a fresh plain object from the own properties
  of their argument; \<^verbatim>\<open>cloneDeep\<close> then copies it, which changes no value.
  \<^verbatim>\<open>omit\<close> copies every key it keeps.  \<^verbatim>\<open>omitBy\<close> writes the keys it keeps through
  lodash's \<^verbatim>\<open>baseSet\<close>, which refuses to write a key named \<^verbatim>\<open>__proto__\<close>,
  \<^verbatim>\<open>constructor\<close> or \<^verbatim>\<open>prototype\<close>: such a key is dropped too.
\<close>

definition unsafe_keys :: "string list" where
  "unsafe_keys = [''__proto__'', ''constructor'', ''prototype'']"

definition omit :: "string list \<Rightarrow> (string \<times> json) list \<Rightarrow> (string \<times> json) list" where
  "omit keys kvs = filter (\<lambda>kv. fst kv \<notin> set keys) kvs"

definition omitBy :: "(string \<Rightarrow> bool) \<Rightarrow> (string \<times> json) list \<Rightarrow> (string \<times> json) list" where
  "omitBy p kvs = filter (\<lambda>kv. \<not> p (fst kv) \<and> fst kv \<notin> set unsafe_keys) kvs"

text \<open>\<^verbatim>\<open>if (schema.type === 'file') actualSchema.type = 'string'\<close>.\<close>

definition fixFileType :: "json \<Rightarrow> (string \<times> json) list \<Rightarrow> (string \<times> json) list" where
  "fixFileType schema actualSchema =
     (if field schema ''type'' = JStr ''file''
      then AList.update ''type'' (JStr ''string'') actualSchema
      else actualSchema)"

text \<open>\<^verbatim>\<open>if (schema.example) actualSchema.examples = [dereference(schema.example, swagger)]\<close>.\<close>

definition fixExample :: "json \<Rightarrow> json \<Rightarrow> (string \<times> json) list \<Rightarrow> error + (string \<times> json) list" where
  "fixExample schema swagger actualSchema =
     (if truthy (field schema ''example'')
      then bindE (dereference (field schema ''example'') swagger None None) (\<lambda>d.
             Inr (AList.update ''examples'' (JArr [d]) actualSchema))
      else Inr actualSchema)"

text \<open>
  \<^verbatim>\<open>e.includes(null)\<close> and \<^verbatim>\<open>e.push(null)\<close> for a truthy \<open>e\<close>: an array has both, a
  string has \<^verbatim>\<open>includes\<close> only (it looks for the text \<^verbatim>\<open>null\<close>), any other value neither.
\<close>

definition includes_null :: "json \<Rightarrow> error + bool" where
  "includes_null e =
     (case e of
        JArr xs \<Rightarrow> Inr (JNull \<in> set xs)
      | JStr s \<Rightarrow> Inr (sublist ''null'' s)
      | _ \<Rightarrow> Inl TypeError)"

definition push_null :: "json \<Rightarrow> error + json" where
  "push_null e = (case e of JArr xs \<Rightarrow> Inr (JArr (xs @ [JNull])) | _ \<Rightarrow> Inl TypeError)"

text \<open>
  The block under \<^verbatim>\<open>if (schema['x-nullable'])\<close>: first the type, in an if and else-if,
  then, as a statement of its own, the enum.
\<close>

definition fixNullable :: "json \<Rightarrow> (string \<times> json) list \<Rightarrow> error + (string \<times> json) list" where
  "fixNullable schema actualSchema =
     (if truthy (field schema ''x-nullable'') then
        (let typed =
           (if truthy (field (JObj actualSchema) ''type'')
            then AList.update ''type'' (JArr [field (JObj actualSchema) ''type'', JStr ''null'']) actualSchema
            else if field (JObj actualSchema) ''enum'' = JUndef
            then AList.update ''type'' (JStr ''null'') actualSchema
            else actualSchema)
         in if truthy (field (JObj typed) ''enum'')
            then bindE (includes_null (field (JObj typed) ''enum'')) (\<lambda>has.
                   if has then Inr typed
                   else bindE (push_null (field (JObj typed) ''enum'')) (\<lambda>e.
                          Inr (AList.update ''enum'' e typed)))
            else Inr typed)
      else Inr actualSchema)"

text \<open>Mapping a function that may throw and that threads the collected references.\<close>

fun mapS :: "('a \<Rightarrow> 's \<Rightarrow> 'e + 'b \<times> 's) \<Rightarrow> 'a list \<Rightarrow> 's \<Rightarrow> 'e + 'b list \<times> 's" where
  "mapS f [] s = Inr ([], s)"
| "mapS f (x # xs) s =
     bindE (f x s) (\<lambda>r. bindE (mapS f xs (snd r)) (\<lambda>rs. Inr (fst r # fst rs, snd rs)))"

text \<open>The values directly inside an array or an object.\<close>

fun children :: "json \<Rightarrow> json list" where
  "children (JArr xs) = xs"
| "children (JObj kvs) = map snd kvs"
| "children v = []"

text \<open>\<^verbatim>\<open>v.map(recurseConvertSubSchema)\<close> for a truthy \<open>v\<close>: only an array has \<^verbatim>\<open>map\<close>.\<close>

definition convertEach :: "(json \<Rightarrow> json list \<Rightarrow> error + json \<times> json list) \<Rightarrow> json \<Rightarrow> json list \<Rightarrow> error + json \<times> json list" where
  "convertEach f v refs =
     (case v of
        JArr xs \<Rightarrow> bindE (mapS f xs refs) (\<lambda>r. Inr (JArr (fst r), snd r))
      | _ \<Rightarrow> Inl TypeError)"


text \<open>
  The loop over \<^verbatim>\<open>Object.keys(v)\<close> that assigns to each key of the copy the converted
  value: the keys of an object are distinct, so the entries are rewritten in place; an array
  is rewritten index by index; assigning to an index of a string throws; a number or a
  boolean has no keys.
\<close>

definition convertProperties :: "(json \<Rightarrow> json list \<Rightarrow> error + json \<times> json list) \<Rightarrow> json \<Rightarrow> json list \<Rightarrow> error + json \<times> json list" where
  "convertProperties f v refs =
     (case v of
        JObj kvs \<Rightarrow>
          bindE (mapS (\<lambda>kv r. bindE (f (snd kv) r) (\<lambda>c. Inr ((fst kv, fst c), snd c))) kvs refs)
            (\<lambda>r. Inr (JObj (fst r), snd r))
      | JArr xs \<Rightarrow> bindE (mapS f xs refs) (\<lambda>r. Inr (JArr (fst r), snd r))
      | JStr s \<Rightarrow> Inl TypeError
      | _ \<Rightarrow> Inr (v, refs))"

text \<open>
  One \<^verbatim>\<open>if (guard) actualSchema.key = conv(schema.key)\<close> block; the state is the node
  under construction and the references collected so far.
\<close>

definition rewrite ::
  "string \<Rightarrow> (json \<Rightarrow> bool) \<Rightarrow> (json \<Rightarrow> json list \<Rightarrow> error + json \<times> json list) \<Rightarrow> json
     \<Rightarrow> (string \<times> json) list \<times> json list \<Rightarrow> error + (string \<times> json) list \<times> json list" where
  "rewrite key guard conv schema st =
     (if guard (field schema key)
      then bindE (conv (field schema key) (snd st)) (\<lambda>r.
             Inr (AList.update key (fst r) (fst st), snd r))
      else Inr st)"

text \<open>\<^verbatim>\<open>v && typeof v === 'object'\<close>.\<close>

definition objectLike :: "json \<Rightarrow> bool" where
  "objectLike v = (truthy v \<and> isObject v)"

lemma mapS_cong [fundef_cong]:
  "xs = ys \<Longrightarrow> s = t \<Longrightarrow> (\<And>x r. x \<in> set ys \<Longrightarrow> f x r = g x r) \<Longrightarrow> mapS f xs s = mapS g ys t"
  by (induction ys arbitrary: xs s t) (auto simp: bindE_def split: sum.splits)

lemma convertEach_cong [fundef_cong]:
  "v = w \<Longrightarrow> refs = refs' \<Longrightarrow> (\<And>x r. x \<in> set (children w) \<Longrightarrow> f x r = g x r)
     \<Longrightarrow> convertEach f v refs = convertEach g w refs'"
  unfolding convertEach_def by (auto split: json.splits cong: mapS_cong)


lemma convertProperties_cong [fundef_cong]:
  "v = w \<Longrightarrow> refs = refs' \<Longrightarrow> (\<And>x r. x \<in> set (children w) \<Longrightarrow> f x r = g x r)
     \<Longrightarrow> convertProperties f v refs = convertProperties g w refs'"
  unfolding convertProperties_def
  by (auto split: json.splits intro!: arg_cong2[where f=bindE] mapS_cong simp: rev_image_eqI)

lemma rewrite_cong [fundef_cong]:
  "schema = schema' \<Longrightarrow> st = st'
     \<Longrightarrow> (\<And>r. guard (field schema' key) \<Longrightarrow> conv (field schema' key) r = conv' (field schema' key) r)
     \<Longrightarrow> rewrite key guard conv schema st = rewrite key guard conv' schema' st'"
  unfolding rewrite_def by auto

text \<open>
  \<^verbatim>\<open>convertSubSchema(schema, references, swagger)\<close>; the result is the converted node with
  the references array as the call leaves it.  Reading \<^verbatim>\<open>schema.$ref\<close> throws on
  \<^verbatim>\<open>null\<close>.
\<close>

function convertSubSchema :: "json \<Rightarrow> json list \<Rightarrow> json \<Rightarrow> error + json \<times> json list" where
  "convertSubSchema schema references swagger =
     (if nullish schema then Inl TypeError
      else if truthy (field schema ''$ref'')
      then Inr (JObj [(''$ref'', field schema ''$ref'')], references @ [field schema ''$ref''])
      else
        bindE (fixExample schema swagger
                 (fixFileType schema (omitBy isExtension (omit omitted_keys (own_entries schema))))) (\<lambda>a.
        bindE (fixNullable schema a) (\<lambda>a.
        bindE (rewrite ''allOf'' truthy (convertEach (\<lambda>s r. convertSubSchema s r swagger)) schema (a, references)) (\<lambda>st.
        bindE (rewrite ''anyOf'' truthy (convertEach (\<lambda>s r. convertSubSchema s r swagger)) schema st) (\<lambda>st.
        bindE (rewrite ''oneOf'' truthy (convertEach (\<lambda>s r. convertSubSchema s r swagger)) schema st) (\<lambda>st.
        bindE (rewrite ''not'' truthy (\<lambda>s r. convertSubSchema s r swagger) schema st) (\<lambda>st.
        bindE (rewrite ''items'' truthy
                 (\<lambda>items r. if isArray items then convertEach (\<lambda>s r. convertSubSchema s r swagger) items r
                             else convertSubSchema items r swagger) schema st) (\<lambda>st.
        bindE (rewrite ''additionalItems'' objectLike (\<lambda>s r. convertSubSchema s r swagger) schema st) (\<lambda>st.
        bindE (rewrite ''properties'' truthy (convertProperties (\<lambda>s r. convertSubSchema s r swagger)) schema st) (\<lambda>st.
        bindE (rewrite ''patternProperties'' truthy (convertProperties (\<lambda>s r. convertSubSchema s r swagger)) schema st) (\<lambda>st.
        bindE (rewrite ''additionalProperties'' objectLike (\<lambda>s r. convertSubSchema s r swagger) schema st) (\<lambda>st.
        Inr (JObj (fst st), snd st)))))))))))))"
  by pat_completeness auto

lemma size_field_truthy: "truthy (field schema key) \<Longrightarrow> size (field schema key) < size schema"
proof (cases schema)
  case (JObj kvs)
  assume "truthy (field schema key)"
  then have "field (JObj kvs) key \<noteq> JUndef" using JObj by auto
  then show ?thesis using JObj size_field_obj by blast
qed auto

lemma size_children: "x \<in> set (children v) \<Longrightarrow> size x < size v"
  using size_elem_arr size_own_entries_obj by (cases v) fastforce+

lemma size_children_field:
  "truthy (field schema key) \<Longrightarrow> x \<in> set (children (field schema key)) \<Longrightarrow> size x < size schema"
  using size_field_truthy size_children by (meson less_trans)

termination convertSubSchema
  by (relation "measure (\<lambda>(schema, references, swagger). size schema)")
     (auto simp: size_field_truthy size_children_field objectLike_def)

declare convertSubSchema.simps [simp del]


subsection \<open>What each step leaves alone\<close>

lemma bindE_Inr: "bindE m f = Inr y \<longleftrightarrow> (\<exists>x. m = Inr x \<and> f x = Inr y)"
  by (cases m) (auto simp: bindE_def)

lemma bindE_simps [simp]: "bindE (Inl e) f = Inl e" "bindE (Inr x) f = f x"
  by (simp_all add: bindE_def)

lemma map_of_update: "map_of (AList.update k v al) k' = (if k' = k then Some v else map_of al k')"
  by (simp add: update_conv')

lemma map_of_omit: "map_of (omit keys kvs) k = (if k \<in> set keys then None else map_of kvs k)"
  unfolding omit_def by (induction kvs) auto

lemma map_of_omitBy:
  "map_of (omitBy p kvs) k = (if p k \<or> k \<in> set unsafe_keys then None else map_of kvs k)"
  unfolding omitBy_def by (induction kvs) auto

lemma rewrite_frame:
  "rewrite key guard conv schema st = Inr st' \<Longrightarrow> k \<noteq> key \<Longrightarrow> map_of (fst st') k = map_of (fst st) k"
  by (auto simp: rewrite_def bindE_Inr map_of_update split: if_splits)

lemma fixFileType_frame: "k \<noteq> ''type'' \<Longrightarrow> map_of (fixFileType schema a) k = map_of a k"
  by (simp add: fixFileType_def map_of_update)

lemma fixExample_frame:
  "fixExample schema swagger a = Inr a' \<Longrightarrow> k \<noteq> ''examples'' \<Longrightarrow> map_of a' k = map_of a k"
  by (auto simp: fixExample_def bindE_Inr map_of_update split: if_splits)

definition recursion_keys :: "string list" where
  "recursion_keys = [''allOf'', ''anyOf'', ''oneOf'', ''not'', ''items'', ''additionalItems'',
     ''properties'', ''patternProperties'', ''additionalProperties'']"

lemma convertSubSchema_steps:
  assumes "convertSubSchema schema references swagger = Inr (res, refs)"
    and "\<not> truthy (field schema ''$ref'')"
  shows "\<exists>a1 a2 a3. fixExample schema swagger
            (fixFileType schema (omitBy isExtension (omit omitted_keys (own_entries schema)))) = Inr a1
          \<and> fixNullable schema a1 = Inr a2 \<and> res = JObj a3
          \<and> (\<forall>k. k \<notin> set recursion_keys \<longrightarrow> map_of a3 k = map_of a2 k)"
proof -
  from assms obtain a1 a2 s1 s2 s3 s4 s5 s6 s7 s8 s9 where
    a1: "fixExample schema swagger
            (fixFileType schema (omitBy isExtension (omit omitted_keys (own_entries schema)))) = Inr a1"
    and a2: "fixNullable schema a1 = Inr a2"
    and s: "rewrite ''allOf'' truthy (convertEach (\<lambda>s r. convertSubSchema s r swagger)) schema (a2, references) = Inr s1"
       "rewrite ''anyOf'' truthy (convertEach (\<lambda>s r. convertSubSchema s r swagger)) schema s1 = Inr s2"
       "rewrite ''oneOf'' truthy (convertEach (\<lambda>s r. convertSubSchema s r swagger)) schema s2 = Inr s3"
       "rewrite ''not'' truthy (\<lambda>s r. convertSubSchema s r swagger) schema s3 = Inr s4"
       "rewrite ''items'' truthy
                 (\<lambda>items r. if isArray items then convertEach (\<lambda>s r. convertSubSchema s r swagger) items r
                             else convertSubSchema items r swagger) schema s4 = Inr s5"
       "rewrite ''additionalItems'' objectLike (\<lambda>s r. convertSubSchema s r swagger) schema s5 = Inr s6"
       "rewrite ''properties'' truthy (convertProperties (\<lambda>s r. convertSubSchema s r swagger)) schema s6 = Inr s7"
       "rewrite ''patternProperties'' truthy (convertProperties (\<lambda>s r. convertSubSchema s r swagger)) schema s7 = Inr s8"
       "rewrite ''additionalProperties'' objectLike (\<lambda>s r. convertSubSchema s r swagger) schema s8 = Inr s9"
    and r: "res = JObj (fst s9)"
    by (subst (asm) convertSubSchema.simps) (auto simp: bindE_Inr split: if_splits)
  have "map_of (fst s9) k = map_of a2 k" if "k \<notin> set recursion_keys" for k
    using that s[THEN rewrite_frame, of k] by (simp add: recursion_keys_def)
  with a1 a2 r show ?thesis by blast
qed

lemma field_map_of: "field (JObj a) k = (case map_of a k of None \<Rightarrow> JUndef | Some x \<Rightarrow> x)"
  by simp

lemma truthy_field_obj: "truthy (field schema k) \<Longrightarrow> \<exists>kvs. schema = JObj kvs"
  by (cases schema) auto

lemma fixNullable_frame:
  "fixNullable schema a = Inr a' \<Longrightarrow> k \<noteq> ''type'' \<Longrightarrow> k \<noteq> ''enum'' \<Longrightarrow> map_of a' k = map_of a k"
  by (auto simp: fixNullable_def Let_def bindE_Inr map_of_update split: if_splits)

text \<open>Schemas used as concrete inputs below.\<close>

definition nullable_enum_schema :: json where
  "nullable_enum_schema =
     JObj [(''type'', JStr ''string''), (''enum'', JArr [JStr ''a'', JStr ''b'']),
           (''x-nullable'', JBool True)]"

definition nullable_enum_result :: json where
  "nullable_enum_result =
     JObj [(''type'', JArr [JStr ''string'', JStr ''null'']),
           (''enum'', JArr [JStr ''a'', JStr ''b'', JNull])]"

lemma nullable_enum_eval:
  "convertSubSchema nullable_enum_schema [] JNull = Inr (nullable_enum_result, [])"
  by code_simp

definition false_example_schema :: json where
  "false_example_schema = JObj [(''type'', JStr ''boolean''), (''example'', JBool False)]"

definition name_example_schema :: json where
  "name_example_schema =
     JObj [(''type'', JStr ''object''), (''example'', JObj [(''$ref'', JStr ''#/definitions/User'')])]"

lemma name_example_eval:
  "convertSubSchema name_example_schema [] user_root =
     Inr (JObj [(''type'', JStr ''object''), (''examples'', JArr [user_schema])], [])"
  by code_simp

lemma name_example_deref:
  "dereference (JObj [(''$ref'', JStr ''#/definitions/User'')]) user_root None None = Inr user_schema"
  by code_simp

lemma false_example_eval:
  "convertSubSchema false_example_schema [] JNull = Inr (JObj [(''type'', JStr ''boolean'')], [])"
  by code_simp

section \<open>Scanning for references\<close>

text \<open>\<^verbatim>\<open>xs.some(f)\<close> for an \<open>f\<close> that may throw: it stops at the first \<^verbatim>\<open>true\<close>.\<close>

fun someE :: "('a \<Rightarrow> 'e + bool) \<Rightarrow> 'a list \<Rightarrow> 'e + bool" where
  "someE f [] = Inr False"
| "someE f (x # xs) = bindE (f x) (\<lambda>found. if found then Inr True else someE f xs)"

lemma someE_cong [fundef_cong]:
  "xs = ys \<Longrightarrow> (\<And>x. x \<in> set ys \<Longrightarrow> f x = g x) \<Longrightarrow> someE f xs = someE g ys"
  by (induction ys arbitrary: xs) (auto simp: bindE_def split: sum.splits)

text \<open>
  \<^verbatim>\<open>checkSchemaHasReferences(schema)\<close>.  It is called on every element of an array
  value without a test, and on an object value after \<^verbatim>\<open>_.isObject\<close>; reading
  \<^verbatim>\<open>schema.$ref\<close> throws on \<^verbatim>\<open>null\<close>.
\<close>

function checkSchemaHasReferences :: "json \<Rightarrow> error + bool" where
  "checkSchemaHasReferences schema =
     (if nullish schema then Inl TypeError
      else if truthy (field schema ''$ref'') then Inr True
      else someE (\<lambda>value.
             if isArray value then someE checkSchemaHasReferences (children value)
             else if isObject value then checkSchemaHasReferences value
             else Inr False)
           (map snd (own_entries schema)))"
  by pat_completeness auto

lemma size_own_entries_le: "x \<in> snd ` set (own_entries v) \<Longrightarrow> size x \<le> size v"
  using size_own_entries_obj[of _ x] size_elem_arr[of x]
  by (cases v) (auto dest!: set_zip_rightD simp: less_imp_le)

lemma size_own_entries_object:
  "x \<in> snd ` set (own_entries v) \<Longrightarrow> isObject x \<Longrightarrow> size x < size v"
  using size_own_entries_obj[of _ x] size_elem_arr[of x]
  by (cases v) (auto dest!: set_zip_rightD)

termination checkSchemaHasReferences
proof (relation "measure size", goal_cases)
  case 1
  then show ?case by simp
next
  case (2 schema v x)
  then have "isObject v" by (cases v) auto
  with 2 have "size v < size schema" by (simp add: size_own_entries_object)
  moreover have "size x < size v" using 2 by (simp add: size_children)
  ultimately show ?case by simp
next
  case (3 schema v)
  then show ?case by (simp add: size_own_entries_object)
qed

declare checkSchemaHasReferences.simps [simp del]

text \<open>
  One \<^verbatim>\<open>if (guard) references = references.concat(scan(schema.key))\<close> block of
  \<^verbatim>\<open>findReferences\<close>.
\<close>

definition collect :: "string \<Rightarrow> (json \<Rightarrow> bool) \<Rightarrow> (json \<Rightarrow> error + json list) \<Rightarrow> json \<Rightarrow> json list \<Rightarrow> error + json list" where
  "collect key guard scan schema references =
     (if guard (field schema key)
      then bindE (scan (field schema key)) (\<lambda>found. Inr (references @ found))
      else Inr references)"

text \<open>
  \<^verbatim>\<open>...v.map(findReferences)\<close>: each list found is an argument of \<^verbatim>\<open>concat\<close>, which
  appends its elements.
\<close>

definition findEach :: "(json \<Rightarrow> error + json list) \<Rightarrow> json \<Rightarrow> error + json list" where
  "findEach f v =
     (case v of
        JArr xs \<Rightarrow> bindE (mapE f xs) (\<lambda>found. Inr (concat found))
      | _ \<Rightarrow> Inl TypeError)"

text \<open>
  \<^verbatim>\<open>references.concat(...found)\<close>, the form the \<^verbatim>\<open>not\<close> branch uses: every element
  found is an argument of its own, and \<^verbatim>\<open>concat\<close> flattens an argument that is an array.
\<close>

definition spread :: "json list \<Rightarrow> json list" where
  "spread found = concat (map (\<lambda>r. case r of JArr ys \<Rightarrow> ys | _ \<Rightarrow> [r]) found)"

text \<open>The loop over \<^verbatim>\<open>Object.keys(v)\<close> that scans each \<^verbatim>\<open>v[key]\<close>.\<close>

definition findProperties :: "(json \<Rightarrow> error + json list) \<Rightarrow> json \<Rightarrow> error + json list" where
  "findProperties f v = bindE (mapE f (map snd (own_entries v))) (\<lambda>found. Inr (concat found))"

lemma collect_cong [fundef_cong]:
  "schema = schema' \<Longrightarrow> references = references'
     \<Longrightarrow> (guard (field schema' key) \<Longrightarrow> scan (field schema' key) = scan' (field schema' key))
     \<Longrightarrow> collect key guard scan schema references = collect key guard scan' schema' references'"
  unfolding collect_def by auto

lemma findEach_cong [fundef_cong]:
  "v = w \<Longrightarrow> (\<And>x. x \<in> set (children w) \<Longrightarrow> f x = g x) \<Longrightarrow> findEach f v = findEach g w"
  unfolding findEach_def by (auto split: json.splits intro!: arg_cong2[where f=bindE] mapE_cong)

lemma findProperties_cong [fundef_cong]:
  "v = w \<Longrightarrow> (\<And>x. x \<in> snd ` set (own_entries w) \<Longrightarrow> f x = g x)
     \<Longrightarrow> findProperties f v = findProperties g w"
  unfolding findProperties_def by (auto intro!: arg_cong2[where f=bindE] mapE_cong)

text \<open>\<^verbatim>\<open>findReferences(schema)\<close>.\<close>

function findReferences :: "json \<Rightarrow> error + json list" where
  "findReferences schema =
     (if nullish schema then Inl TypeError
      else if truthy (field schema ''$ref'') then Inr [field schema ''$ref'']
      else
        bindE (collect ''allOf'' truthy (findEach findReferences) schema []) (\<lambda>references.
        bindE (collect ''anyOf'' truthy (findEach findReferences) schema references) (\<lambda>references.
        bindE (collect ''oneOf'' truthy (findEach findReferences) schema references) (\<lambda>references.
        bindE (collect ''not'' truthy
                 (\<lambda>v. bindE (findReferences v) (\<lambda>found. Inr (spread found))) schema references) (\<lambda>references.
        bindE (collect ''items'' truthy
                 (\<lambda>items. if isArray items then findEach findReferences items
                           else findReferences items) schema references) (\<lambda>references.
        bindE (collect ''additionalItems'' objectLike findReferences schema references) (\<lambda>references.
        bindE (collect ''properties'' truthy (findProperties findReferences) schema references) (\<lambda>references.
        bindE (collect ''patternProperties'' truthy (findProperties findReferences) schema references) (\<lambda>references.
        collect ''additionalProperties'' objectLike findReferences schema references)))))))))"
  by pat_completeness auto

lemma size_entries_field:
  "truthy (field schema key) \<Longrightarrow> x \<in> snd ` set (own_entries (field schema key)) \<Longrightarrow> size x < size schema"
  using size_field_truthy[of schema key] size_own_entries_le[of x "field schema key"] by simp

termination findReferences
  by (relation "measure size")
     (auto simp: size_field_truthy size_children_field size_entries_field objectLike_def)

declare findReferences.simps [simp del]

section \<open>Converting a schema with its definitions\<close>

text \<open>
  The property key an id is used as: \<^verbatim>\<open>result.definitions[undefined]\<close> is the property
  named \<^verbatim>\<open>undefined\<close>.
\<close>

definition key_of :: "string option \<Rightarrow> string" where
  "key_of i = (case i of None \<Rightarrow> ''undefined'' | Some s \<Rightarrow> s)"

text \<open>
  The \<^verbatim>\<open>while (references.length !== 0)\<close> loop of \<^verbatim>\<open>convertSchema\<close>, on the
  worklist and the \<^verbatim>\<open>definitions\<close> object of the result.  As in \<open>get\<close>, the test
  \<^verbatim>\<open>result.definitions[lookup.id] === undefined\<close> is modelled on own properties: an id is
  taken not to name a member that the fresh object inherits (\<^verbatim>\<open>constructor\<close>,
  \<^verbatim>\<open>toString\<close>, ...), for which the source never writes the definition.
\<close>

function copyLoop :: "json \<Rightarrow> json list \<Rightarrow> (string \<times> json) list \<Rightarrow> error + (string \<times> json) list" where
  "copyLoop root references definitions =
     (if references = [] then Inr definitions
      else bindE (lookupReference (last references) root (Some 3)) (\<lambda>lookup.
             if field (JObj definitions) (key_of (fst lookup)) = JUndef
             then bindE (findReferences (snd lookup)) (\<lambda>found.
                    copyLoop root (butlast references @ found)
                      (AList.update (key_of (fst lookup)) (snd lookup) definitions))
             else copyLoop root (butlast references) definitions))"
  by pat_completeness auto

text \<open>
  The loop ends: a write fills a key that depth-3 lookups in this root can produce and that
  was empty, and a turn without a write shortens the worklist.
\<close>

definition candidate_keys :: "json \<Rightarrow> string set" where
  "candidate_keys root = insert ''undefined'' (fst ` set (own_entries (field root ''definitions'')))"

definition missing_keys :: "json \<Rightarrow> (string \<times> json) list \<Rightarrow> string set" where
  "missing_keys root definitions = {k \<in> candidate_keys root. field (JObj definitions) k = JUndef}"

lemma finite_missing_keys: "finite (missing_keys root definitions)"
  by (simp add: missing_keys_def candidate_keys_def)

lemma get_defined_key: "get v k = Inr w \<Longrightarrow> w \<noteq> JUndef \<Longrightarrow> k \<in> fst ` set (own_entries v)"
  by (auto simp: get_def split: if_splits option.splits dest!: map_of_SomeD intro: rev_image_eqI)

lemma lookupReference_depth3:
  assumes "lookupReference r root (Some 3) = Inr (i, v)"
  shows "v \<noteq> JUndef \<and> key_of i \<in> candidate_keys root \<and>
         (case i of None \<Rightarrow> v = field root ''definitions''
                  | Some k \<Rightarrow> get (field root ''definitions'') k = Inr v)"
  using assms
  by (auto simp: lookupReference_def bindE_Inr key_of_def candidate_keys_def
           split: json.splits list.splits if_splits sum.splits dest: get_defined_key)

termination copyLoop
proof (relation "inv_image (less_than <*lex*> less_than)
         (\<lambda>(root, references, definitions). (card (missing_keys root definitions), length references))",
       goal_cases)
  case 1
  then show ?case by (intro wf_inv_image wf_lex_prod wf_less_than)
next
  case (2 root references definitions lookup found)
  obtain i v where l: "lookup = (i, v)" by (cases lookup)
  from 2 l lookupReference_depth3[of "last references" root i v]
  have v: "v \<noteq> JUndef" and k: "key_of i \<in> candidate_keys root" by auto
  have "key_of i \<in> missing_keys root definitions"
    using 2 l k by (simp add: missing_keys_def)
  moreover have "key_of i \<notin> missing_keys root (AList.update (key_of i) v definitions)"
    using v by (simp add: missing_keys_def map_of_update)
  moreover have "missing_keys root (AList.update (key_of i) v definitions) \<subseteq> missing_keys root definitions"
    using 2 l by (auto simp: missing_keys_def map_of_update split: if_splits)
  ultimately have "missing_keys root (AList.update (key_of i) v definitions) \<subset> missing_keys root definitions"
    by blast
  then show ?case
    using l by (simp add: psubset_card_mono finite_missing_keys)
next
  case (3 root references definitions lookup)
  then show ?case by simp
qed

declare copyLoop.simps [simp del]

text \<open>\<^verbatim>\<open>obj.key = v\<close> on an object (the converted node always is one).\<close>

definition set_field :: "string \<Rightarrow> json \<Rightarrow> json \<Rightarrow> json" where
  "set_field key v obj = (case obj of JObj kvs \<Rightarrow> JObj (AList.update key v kvs) | _ \<Rightarrow> obj)"

text \<open>\<^verbatim>\<open>convertSchema(schema, root, swagger, copyDefinitions)\<close>.\<close>

definition convertSchema :: "json \<Rightarrow> json \<Rightarrow> json \<Rightarrow> bool \<Rightarrow> error + json" where
  "convertSchema schema root swagger copyDefinitions =
     bindE (convertSubSchema schema [] swagger) (\<lambda>converted.
     bindE (if copyDefinitions \<and> snd converted \<noteq> []
            then bindE (copyLoop root (snd converted) []) (\<lambda>definitions.
                   Inr (set_field ''definitions'' (JObj definitions) (fst converted)))
            else Inr (fst converted)) (\<lambda>result.
     if truthy (field result ''$ref'') \<and> copyDefinitions
     then bindE (lookupReference (field result ''$ref'') root None) (\<lambda>reference.
          bindE (checkSchemaHasReferences
                   (field (field result ''definitions'') (key_of (fst reference)))) (\<lambda>has.
            if \<not> has then Inr (field (field result ''definitions'') (key_of (fst reference)))
            else Inr (JObj [(''allOf'', JArr [JObj [(''$ref'', field result ''$ref'')]]),
                            (''definitions'', field result ''definitions'')])))
     else Inr result))"


text \<open>Documents and schemas used as concrete inputs below.\<close>

definition node_root :: json where
  "node_root = JObj [(''definitions'', JObj [(''Node'',
     JObj [(''type'', JStr ''object''),
           (''properties'', JObj [(''next'', JObj [(''$ref'', JStr ''#/definitions/Node'')])])])])]"


subsection \<open>A reference that does not resolve stops the loop\<close>


definition bogus_schema :: json where
  "bogus_schema = JObj [(''$ref'', JStr ''bogus'')]"

lemma bogus_eval_sub: "convertSubSchema bogus_schema [] user_root = Inr (bogus_schema, [JStr ''bogus''])"
  by code_simp


definition null_enum_root :: json where
  "null_enum_root = JObj [(''definitions'', JObj [(''A'',
     JObj [(''type'', JStr ''string''), (''enum'', JArr [JStr ''a'', JNull])])])]"

definition undefined_root :: json where
  "undefined_root = JObj [(''definitions'', JObj
     [(''undefined'', JObj [(''allOf'', JArr [JObj [(''$ref'', JStr ''#/definitions/B'')]])]),
      (''B'', JObj [(''type'', JStr ''string'')])])]"

definition undefined_schema :: json where
  "undefined_schema = JObj [(''allOf'',
     JArr [JObj [(''$ref'', JStr ''#/definitions/undefined'')], JObj [(''$ref'', JStr ''#/definitions'')]])]"

section \<open>Schemas the conversion only prunes\<close>

text \<open>
  The specification's words for the result on a schema without references, nullable marks
  or file types: the same schema with the extension keys and the Swagger-only keys removed.
  \<open>stripKeys\<close> removes them from a schema node and from every schema below it, in the
  places where the grammar has schemas, and changes nothing else.
\<close>

definition removed_key :: "string \<Rightarrow> bool" where
  "removed_key k = (k \<in> set omitted_keys \<or> isExtension k)"

function stripKeys :: "json \<Rightarrow> json" where
  "stripKeys schema =
     (case schema of
        JObj kvs \<Rightarrow>
          JObj (map (\<lambda>kv.
                  (fst kv,
                   if fst kv \<in> {''allOf'', ''anyOf'', ''oneOf''}
                   then (case snd kv of JArr xs \<Rightarrow> JArr (map stripKeys xs) | _ \<Rightarrow> snd kv)
                   else if fst kv \<in> {''not'', ''additionalItems'', ''additionalProperties''}
                   then stripKeys (snd kv)
                   else if fst kv = ''items''
                   then (case snd kv of JArr xs \<Rightarrow> JArr (map stripKeys xs) | _ \<Rightarrow> stripKeys (snd kv))
                   else if fst kv \<in> {''properties'', ''patternProperties''}
                   then (case snd kv of
                           JObj ps \<Rightarrow> JObj (map (\<lambda>p. (fst p, stripKeys (snd p))) ps)
                         | _ \<Rightarrow> snd kv)
                   else snd kv))
               (filter (\<lambda>kv. \<not> removed_key (fst kv)) kvs))
      | _ \<Rightarrow> schema)"
  by pat_completeness auto

lemma size_entry_obj:
  "(k, v) \<in> set (kvs :: (string \<times> json) list) \<Longrightarrow> size v < Suc (size_list (size_prod (\<lambda>x. 0) size) kvs)"
  using size_own_entries_obj[of k v kvs] by simp

lemma size_entry_elem:
  "(k, JArr xs) \<in> set (kvs :: (string \<times> json) list) \<Longrightarrow> x \<in> set xs \<Longrightarrow> size x < Suc (size_list (size_prod (\<lambda>x. 0) size) kvs)"
  using size_entry_obj[of k "JArr xs" kvs] size_elem_arr[of x xs] by simp

lemma size_entry_prop:
  "(k, JObj ps) \<in> set (kvs :: (string \<times> json) list) \<Longrightarrow> (n, p) \<in> set ps \<Longrightarrow> size p < Suc (size_list (size_prod (\<lambda>x. 0) size) kvs)"
  using size_entry_obj[of k "JObj ps" kvs] size_entry_obj[of n p ps] by simp

lemma size_entry_sub:
  "(k, JObj ps) \<in> set (kvs :: (string \<times> json) list) \<Longrightarrow> size_list (size_prod (\<lambda>x. 0) size) ps < size_list (size_prod (\<lambda>x. 0) size) kvs"
  using size_entry_obj[of k "JObj ps" kvs] by simp

termination stripKeys
  by (relation "measure size") (auto intro: size_entry_obj size_entry_elem size_entry_prop size_entry_sub)

declare stripKeys.simps [simp del]

text \<open>
  The schemas of the claim: an object with distinct keys, none of them \<^verbatim>\<open>__proto__\<close>,
  \<^verbatim>\<open>constructor\<close> or \<^verbatim>\<open>prototype\<close>, no \<^verbatim>\<open>$ref\<close>, no
  \<^verbatim>\<open>x-nullable\<close>, a type other than \<^verbatim>\<open>file\<close>, no truthy \<^verbatim>\<open>example\<close>, and under
  each keyword that holds schemas either a falsy value or schemas of the same kind: an array
  of them under \<^verbatim>\<open>allOf\<close>, \<^verbatim>\<open>anyOf\<close>, \<^verbatim>\<open>oneOf\<close>, one under \<^verbatim>\<open>not\<close>, one or an
  array under \<^verbatim>\<open>items\<close>, one unless the value is a boolean under \<^verbatim>\<open>additionalItems\<close>
  and \<^verbatim>\<open>additionalProperties\<close>, an object of them under \<^verbatim>\<open>properties\<close> and
  \<^verbatim>\<open>patternProperties\<close>.
\<close>

function plain :: "json \<Rightarrow> bool" where
  "plain schema =
     (case schema of
        JObj kvs \<Rightarrow>
          distinct (map fst kvs) \<and>
          (\<forall>kv \<in> set kvs. fst kv \<notin> set unsafe_keys) \<and>
          field schema ''$ref'' = JUndef \<and>
          field schema ''x-nullable'' = JUndef \<and>
          field schema ''type'' \<noteq> JStr ''file'' \<and>
          \<not> truthy (field schema ''example'') \<and>
          (\<forall>kv \<in> set kvs.
             if fst kv \<in> {''allOf'', ''anyOf'', ''oneOf''}
             then \<not> truthy (snd kv) \<or> (case snd kv of JArr xs \<Rightarrow> \<forall>x \<in> set xs. plain x | _ \<Rightarrow> False)
             else if fst kv = ''not''
             then \<not> truthy (snd kv) \<or> plain (snd kv)
             else if fst kv = ''items''
             then \<not> truthy (snd kv) \<or> (case snd kv of JArr xs \<Rightarrow> \<forall>x \<in> set xs. plain x | _ \<Rightarrow> plain (snd kv))
             else if fst kv \<in> {''additionalItems'', ''additionalProperties''}
             then \<not> objectLike (snd kv) \<or> plain (snd kv)
             else if fst kv \<in> {''properties'', ''patternProperties''}
             then \<not> truthy (snd kv) \<or> (case snd kv of JObj ps \<Rightarrow> \<forall>p \<in> set ps. plain (snd p) | _ \<Rightarrow> False)
             else True)
      | _ \<Rightarrow> False)"
  by pat_completeness auto

termination plain
  by (relation "measure size") (auto intro: size_entry_obj size_entry_elem size_entry_prop size_entry_sub)

declare plain.simps [simp del]


text \<open>What \<open>stripKeys\<close> does to the value under a key, and one step of it on a node.\<close>

definition stripAt :: "string \<Rightarrow> json \<Rightarrow> json" where
  "stripAt k v =
     (if k \<in> {''allOf'', ''anyOf'', ''oneOf''}
      then (case v of JArr xs \<Rightarrow> JArr (map stripKeys xs) | _ \<Rightarrow> v)
      else if k \<in> {''not'', ''additionalItems'', ''additionalProperties''}
      then stripKeys v
      else if k = ''items''
      then (case v of JArr xs \<Rightarrow> JArr (map stripKeys xs) | _ \<Rightarrow> stripKeys v)
      else if k \<in> {''properties'', ''patternProperties''}
      then (case v of JObj ps \<Rightarrow> JObj (map (\<lambda>p. (fst p, stripKeys (snd p))) ps) | _ \<Rightarrow> v)
      else v)"

lemma stripKeys_obj:
  "stripKeys (JObj kvs) =
     JObj (map (\<lambda>kv. (fst kv, stripAt (fst kv) (snd kv))) (filter (\<lambda>kv. \<not> removed_key (fst kv)) kvs))"
  by (subst stripKeys.simps) (simp add: stripAt_def)

lemma stripKeys_other: "\<not> isObject v \<or> isArray v \<Longrightarrow> stripKeys v = v"
  by (subst stripKeys.simps) (cases v; simp)

definition upd :: "string \<Rightarrow> (string \<times> json) list \<Rightarrow> (string \<times> json) list" where
  "upd k a = map (\<lambda>kv. if fst kv = k then (k, stripAt k (snd kv)) else kv) a"

lemma update_distinct:
  "distinct (map fst a) \<Longrightarrow> map_of a k = Some v
     \<Longrightarrow> AList.update k v' a = map (\<lambda>kv. if fst kv = k then (k, v') else kv) a"
proof (induction a)
  case Nil
  then show ?case by simp
next
  case (Cons x a)
  show ?case
  proof (cases "fst x = k")
    case True
    then have "k \<notin> fst ` set a" using Cons.prems(1) by auto
    then have "map (\<lambda>kv. if fst kv = k then (k, v') else kv) a = a"
      by (intro map_idI) auto
    with True show ?thesis by (cases x) simp
  next
    case False
    with Cons show ?thesis by (cases x) auto
  qed
qed

lemma map_fst_upd [simp]: "map fst (upd k a) = map fst a"
  by (induction a) (auto simp: upd_def)

lemma map_of_upd_other: "k' \<noteq> k \<Longrightarrow> map_of (upd k a) k' = map_of a k'"
  by (induction a) (auto simp: upd_def)

lemma field_upd_other [simp]: "k' \<noteq> k \<Longrightarrow> field (JObj (upd k a)) k' = field (JObj a) k'"
  by (simp add: map_of_upd_other)

lemma rewrite_plain:
  assumes d: "distinct (map fst a)"
    and f: "field schema k = field (JObj a) k"
    and g: "guard (field schema k) \<Longrightarrow> conv (field schema k) refs = Inr (stripAt k (field schema k), refs)"
    and n: "\<not> guard (field schema k) \<Longrightarrow> stripAt k (field schema k) = field schema k"
    and u: "\<not> guard JUndef"
  shows "rewrite k guard conv schema (a, refs) = Inr (upd k a, refs)"
proof (cases "map_of a k")
  case None
  then have "k \<notin> fst ` set a" by (simp add: map_of_eq_None_iff)
  then have "upd k a = a" unfolding upd_def by (intro map_idI) auto
  moreover have "field schema k = JUndef" using f None by simp
  ultimately show ?thesis using u by (simp add: rewrite_def)
next
  case (Some v)
  then have fv: "field schema k = v" using f by simp
  have same: "snd kv = v" if "kv \<in> set a" "fst kv = k" for kv
  proof -
    have "(k, v) \<in> set a" using Some by (rule map_of_SomeD)
    moreover have "(k, snd kv) \<in> set a" using that by (cases kv) auto
    ultimately show ?thesis using d eq_key_imp_eq_value by metis
  qed
  show ?thesis
  proof (cases "guard v")
    case True
    have "upd k a = map (\<lambda>kv. if fst kv = k then (k, stripAt k v) else kv) a"
      unfolding upd_def by (intro map_cong) (auto simp: same)
    then show ?thesis
      using True fv g update_distinct[OF d Some, of "stripAt k v"] by (simp add: rewrite_def)
  next
    case False
    then have "stripAt k v = v" using n fv by simp
    then have "upd k a = a"
      unfolding upd_def using same by (intro map_idI) fastforce
    then show ?thesis using False fv by (simp add: rewrite_def)
  qed
qed

lemma upd_all:
  "upd ''additionalProperties'' (upd ''patternProperties'' (upd ''properties''
     (upd ''additionalItems'' (upd ''items'' (upd ''not'' (upd ''oneOf'' (upd ''anyOf''
     (upd ''allOf'' a))))))))
   = map (\<lambda>kv. (fst kv, stripAt (fst kv) (snd kv))) a"
proof -
  have other: "stripAt k v = v" if "k \<notin> set recursion_keys" for k v
    using that by (simp add: stripAt_def recursion_keys_def)
  show ?thesis
    unfolding upd_def map_map
  proof (intro map_cong refl)
    fix kv assume "kv \<in> set a"
    show "((\<lambda>kv. if fst kv = ''additionalProperties'' then (''additionalProperties'', stripAt ''additionalProperties'' (snd kv)) else kv) \<circ>
         ((\<lambda>kv. if fst kv = ''patternProperties'' then (''patternProperties'', stripAt ''patternProperties'' (snd kv)) else kv) \<circ>
         ((\<lambda>kv. if fst kv = ''properties'' then (''properties'', stripAt ''properties'' (snd kv)) else kv) \<circ>
         ((\<lambda>kv. if fst kv = ''additionalItems'' then (''additionalItems'', stripAt ''additionalItems'' (snd kv)) else kv) \<circ>
         ((\<lambda>kv. if fst kv = ''items'' then (''items'', stripAt ''items'' (snd kv)) else kv) \<circ>
         ((\<lambda>kv. if fst kv = ''not'' then (''not'', stripAt ''not'' (snd kv)) else kv) \<circ>
         ((\<lambda>kv. if fst kv = ''oneOf'' then (''oneOf'', stripAt ''oneOf'' (snd kv)) else kv) \<circ>
         ((\<lambda>kv. if fst kv = ''anyOf'' then (''anyOf'', stripAt ''anyOf'' (snd kv)) else kv) \<circ>
          (\<lambda>kv. if fst kv = ''allOf'' then (''allOf'', stripAt ''allOf'' (snd kv)) else kv))))))))) kv
        = (fst kv, stripAt (fst kv) (snd kv))"
    proof (cases "fst kv \<in> set recursion_keys")
      case True
      then show ?thesis by (cases kv) (auto simp: recursion_keys_def)
    next
      case False
      then show ?thesis using other[OF False] by (cases kv) (auto simp: recursion_keys_def)
    qed
  qed
qed

lemma plain_obj:
  assumes "plain schema"
  obtains kvs where "schema = JObj kvs" "distinct (map fst kvs)"
    "field schema ''$ref'' = JUndef" "field schema ''x-nullable'' = JUndef"
    "field schema ''type'' \<noteq> JStr ''file''" "\<not> truthy (field schema ''example'')"
    "\<forall>kv \<in> set kvs. fst kv \<notin> set unsafe_keys"
  using assms by (subst (asm) plain.simps) (auto split: json.splits)

lemma plain_at:
  assumes "plain schema" and "truthy (field schema k)"
  shows "if k \<in> {''allOf'', ''anyOf'', ''oneOf''}
         then (case field schema k of JArr xs \<Rightarrow> \<forall>x \<in> set xs. plain x | _ \<Rightarrow> False)
         else if k = ''not''
         then plain (field schema k)
         else if k = ''items''
         then (case field schema k of JArr xs \<Rightarrow> \<forall>x \<in> set xs. plain x | _ \<Rightarrow> plain (field schema k))
         else if k \<in> {''additionalItems'', ''additionalProperties''}
         then \<not> objectLike (field schema k) \<or> plain (field schema k)
         else if k \<in> {''properties'', ''patternProperties''}
         then (case field schema k of JObj ps \<Rightarrow> \<forall>p \<in> set ps. plain (snd p) | _ \<Rightarrow> False)
         else True"
proof -
  from assms(1) obtain kvs where kvs: "schema = JObj kvs"
    by (rule plain_obj)
  from assms(2) kvs obtain v where v: "map_of kvs k = Some v" "field schema k = v"
    by (auto split: option.splits)
  then have m: "(k, v) \<in> set kvs" by (auto dest: map_of_SomeD)
  have t: "truthy v" using assms(2) v by simp
  from assms(1) kvs have
    "\<forall>kv \<in> set kvs.
             if fst kv \<in> {''allOf'', ''anyOf'', ''oneOf''}
             then \<not> truthy (snd kv) \<or> (case snd kv of JArr xs \<Rightarrow> \<forall>x \<in> set xs. plain x | _ \<Rightarrow> False)
             else if fst kv = ''not''
             then \<not> truthy (snd kv) \<or> plain (snd kv)
             else if fst kv = ''items''
             then \<not> truthy (snd kv) \<or> (case snd kv of JArr xs \<Rightarrow> \<forall>x \<in> set xs. plain x | _ \<Rightarrow> plain (snd kv))
             else if fst kv \<in> {''additionalItems'', ''additionalProperties''}
             then \<not> objectLike (snd kv) \<or> plain (snd kv)
             else if fst kv \<in> {''properties'', ''patternProperties''}
             then \<not> truthy (snd kv) \<or> (case snd kv of JObj ps \<Rightarrow> \<forall>p \<in> set ps. plain (snd p) | _ \<Rightarrow> False)
             else True"
    apply (subst (asm) plain.simps)
    apply (simp only: json.case)
    apply (elim conjE)
    apply assumption
    done
  from bspec[OF this m] have
     "if k \<in> {''allOf'', ''anyOf'', ''oneOf''}
             then \<not> truthy v \<or> (case v of JArr xs \<Rightarrow> \<forall>x \<in> set xs. plain x | _ \<Rightarrow> False)
             else if k = ''not''
             then \<not> truthy v \<or> plain v
             else if k = ''items''
             then \<not> truthy v \<or> (case v of JArr xs \<Rightarrow> \<forall>x \<in> set xs. plain x | _ \<Rightarrow> plain v)
             else if k \<in> {''additionalItems'', ''additionalProperties''}
             then \<not> objectLike v \<or> plain v
             else if k \<in> {''properties'', ''patternProperties''}
             then \<not> truthy v \<or> (case v of JObj ps \<Rightarrow> \<forall>p \<in> set ps. plain (snd p) | _ \<Rightarrow> False)
             else True"
    by (simp only: fst_conv snd_conv)
  with t show ?thesis unfolding v(2) by (simp only: simp_thms)
qed

lemma plain_array:
  assumes "plain schema" "truthy (field schema k)" "k \<in> {''allOf'', ''anyOf'', ''oneOf''}"
  obtains xs where "field schema k = JArr xs" "\<forall>x \<in> set xs. plain x"
  using plain_at[OF assms(1,2)] assms(3) by (cases "field schema k") auto

lemma plain_not:
  assumes "plain schema" "truthy (field schema ''not'')"
  shows "plain (field schema ''not'')"
  using plain_at[OF assms] by simp

lemma plain_items:
  assumes "plain schema" "truthy (field schema ''items'')"
  shows "case field schema ''items'' of JArr xs \<Rightarrow> \<forall>x \<in> set xs. plain x
         | _ \<Rightarrow> plain (field schema ''items'')"
  using plain_at[OF assms] by simp

lemma plain_additional:
  assumes "plain schema" "objectLike (field schema k)"
    "k \<in> {''additionalItems'', ''additionalProperties''}"
  shows "plain (field schema k)"
proof -
  have "truthy (field schema k)" using assms(2) by (simp add: objectLike_def)
  from plain_at[OF assms(1) this] assms(2,3) show ?thesis by auto
qed

lemma plain_properties:
  assumes "plain schema" "truthy (field schema k)" "k \<in> {''properties'', ''patternProperties''}"
  obtains ps where "field schema k = JObj ps" "\<forall>p \<in> set ps. plain (snd p)"
  using plain_at[OF assms(1,2)] assms(3) by (cases "field schema k") auto

lemma stripAt_array:
  "k \<in> {''allOf'', ''anyOf'', ''oneOf''}
     \<Longrightarrow> stripAt k v = (case v of JArr xs \<Rightarrow> JArr (map stripKeys xs) | _ \<Rightarrow> v)"
  by (auto simp: stripAt_def)

lemma stripAt_one:
  "k \<in> {''not'', ''additionalItems'', ''additionalProperties''} \<Longrightarrow> stripAt k v = stripKeys v"
  by (auto simp: stripAt_def)

lemma stripAt_items:
  "stripAt ''items'' v = (case v of JArr xs \<Rightarrow> JArr (map stripKeys xs) | _ \<Rightarrow> stripKeys v)"
  by (simp add: stripAt_def)

lemma stripAt_properties:
  "k \<in> {''properties'', ''patternProperties''}
     \<Longrightarrow> stripAt k v = (case v of JObj ps \<Rightarrow> JObj (map (\<lambda>p. (fst p, stripKeys (snd p))) ps) | _ \<Rightarrow> v)"
  by (auto simp: stripAt_def)

lemma falsy_cases: "\<not> truthy v \<Longrightarrow> \<not> isObject v"
  by (cases v) auto

lemma recursion_key_kept:
  "k \<in> set recursion_keys \<Longrightarrow> k \<notin> set omitted_keys \<and> \<not> isExtension k \<and> k \<notin> set unsafe_keys"
  by (auto simp: recursion_keys_def omitted_keys_def unsafe_keys_def isExtension_def)

lemma mapS_pure:
  "(\<And>x r. x \<in> set xs \<Longrightarrow> f x r = Inr (g x, r)) \<Longrightarrow> mapS f xs r = Inr (map g xs, r)"
  by (induction xs arbitrary: r) simp_all

lemma convertSubSchema_plain:
  "plain schema \<Longrightarrow> convertSubSchema schema refs swagger = Inr (stripKeys schema, refs)"
proof (induction schema arbitrary: refs rule: measure_induct_rule[of size])
  case (less schema)
  note pl = \<open>plain schema\<close>
  from pl obtain kvs where kvs: "schema = JObj kvs" and dist: "distinct (map fst kvs)"
    and nr: "field schema ''$ref'' = JUndef" and nn: "field schema ''x-nullable'' = JUndef"
    and nf: "field schema ''type'' \<noteq> JStr ''file''" and ne: "\<not> truthy (field schema ''example'')"
    and us: "\<forall>kv \<in> set kvs. fst kv \<notin> set unsafe_keys"
    by (rule plain_obj)
  let ?rec = "\<lambda>s r. convertSubSchema s r swagger"
  let ?a0 = "omitBy isExtension (omit omitted_keys (own_entries schema))"
  have IH: "?rec s r = Inr (stripKeys s, r)" if "size s < size schema" "plain s" for s r
    using less.IH[OF that] .
  have sub: "size (field schema k) < size schema" if "truthy (field schema k)" for k
    using that by (rule size_field_truthy)
  have each: "convertEach ?rec (JArr xs) r = Inr (JArr (map stripKeys xs), r)"
    if "field schema k = JArr xs" "\<forall>x \<in> set xs. plain x" for k xs r
  proof -
    have "truthy (field schema k)" using that(1) by simp
    from sub[OF this] have "size x < size schema" if "x \<in> set xs" for x
      using \<open>field schema k = JArr xs\<close> size_elem_arr[OF that] by simp
    then have "mapS ?rec xs r = Inr (map stripKeys xs, r)"
      using that(2) by (intro mapS_pure IH) auto
    then show ?thesis by (simp add: convertEach_def)
  qed
  have props: "convertProperties ?rec (JObj ps) r = Inr (JObj (map (\<lambda>p. (fst p, stripKeys (snd p))) ps), r)"
    if "field schema k = JObj ps" "\<forall>p \<in> set ps. plain (snd p)" for k ps r
  proof -
    have "truthy (field schema k)" using that(1) by simp
    from sub[OF this] have "size (snd p) < size schema" if "p \<in> set ps" for p
      using \<open>field schema k = JObj ps\<close> size_own_entries_obj[of "fst p" "snd p" ps] that
      by simp
    then have "mapS (\<lambda>kv r. bindE (?rec (snd kv) r) (\<lambda>c. Inr ((fst kv, fst c), snd c))) ps r
                = Inr (map (\<lambda>p. (fst p, stripKeys (snd p))) ps, r)"
      using that(2) by (intro mapS_pure) (simp add: IH)
    then show ?thesis by (simp add: convertProperties_def)
  qed
  have a0: "?a0 = filter (\<lambda>kv. \<not> removed_key (fst kv)) kvs"
  proof -
    have "filter (\<lambda>kv. \<not> isExtension (fst kv) \<and> fst kv \<notin> set unsafe_keys)
            (filter (\<lambda>kv. fst kv \<notin> set omitted_keys) kvs)
          = filter (\<lambda>kv. \<not> removed_key (fst kv)) kvs"
      using us by (induction kvs) (auto simp: removed_key_def)
    then show ?thesis unfolding kvs own_entries.simps omitBy_def omit_def .
  qed
  have d0: "distinct (map fst ?a0)"
    unfolding a0 using dist by (simp add: distinct_map_filter)
  have f0: "field schema k = field (JObj ?a0) k" if "k \<in> set recursion_keys" for k
    using recursion_key_kept[OF that] kvs by (simp add: map_of_omitBy map_of_omit)
  have fx: "fixExample schema swagger (fixFileType schema ?a0) = Inr ?a0"
    "fixNullable schema ?a0 = Inr ?a0"
    using nf ne nn by (simp_all add: fixExample_def fixFileType_def fixNullable_def)
  have arr: "rewrite k truthy (convertEach ?rec) schema (a, r) = Inr (upd k a, r)"
    if k: "k \<in> {''allOf'', ''anyOf'', ''oneOf''}" and "distinct (map fst a)"
      and "field schema k = field (JObj a) k"
    for k a r
  proof (rule rewrite_plain[OF that(2,3)])
    assume t: "truthy (field schema k)"
    from plain_array[OF pl t k] obtain xs where xs: "field schema k = JArr xs" "\<forall>x \<in> set xs. plain x"
      by blast
    show "convertEach ?rec (field schema k) r = Inr (stripAt k (field schema k), r)"
      unfolding stripAt_array[OF k] using each[OF xs] xs(1) by simp
  next
    assume "\<not> truthy (field schema k)"
    then show "stripAt k (field schema k) = field schema k"
      unfolding stripAt_array[OF k] by (cases "field schema k") simp_all
  next
    show "\<not> truthy JUndef" by simp
  qed
  have one: "rewrite k guard ?rec schema (a, r) = Inr (upd k a, r)"
    if k: "k \<in> {''not'', ''additionalItems'', ''additionalProperties''}"
      and g: "guard = truthy \<and> k = ''not'' \<or>
              guard = objectLike \<and> k \<in> {''additionalItems'', ''additionalProperties''}"
      and "distinct (map fst a)" and "field schema k = field (JObj a) k"
    for k guard a r
  proof (rule rewrite_plain[OF that(3,4)])
    assume gd: "guard (field schema k)"
    then have t: "truthy (field schema k)" using g by (auto simp: objectLike_def)
    have "plain (field schema k)"
      using g plain_not[OF pl] plain_additional[OF pl] gd by blast
    then show "?rec (field schema k) r = Inr (stripAt k (field schema k), r)"
      unfolding stripAt_one[OF k] using IH[OF sub[OF t]] by simp
  next
    assume "\<not> guard (field schema k)"
    then have "\<not> isObject (field schema k) \<or> isArray (field schema k)"
      using g falsy_cases[of "field schema k"] by (auto simp: objectLike_def)
    then show "stripAt k (field schema k) = field schema k"
      unfolding stripAt_one[OF k] by (rule stripKeys_other)
  next
    show "\<not> guard JUndef" using g by (auto simp: objectLike_def)
  qed
  have items: "rewrite ''items'' truthy
                 (\<lambda>items r. if isArray items then convertEach ?rec items r else ?rec items r)
                 schema (a, r) = Inr (upd ''items'' a, r)"
    if "distinct (map fst a)" "field schema ''items'' = field (JObj a) ''items''" for a r
  proof (rule rewrite_plain[OF that])
    assume t: "truthy (field schema ''items'')"
    show "(if isArray (field schema ''items'') then convertEach ?rec (field schema ''items'') r
                else ?rec (field schema ''items'') r) = Inr (stripAt ''items'' (field schema ''items''), r)"
    proof (cases "field schema ''items''")
      case (JArr xs)
      then have "\<forall>x \<in> set xs. plain x" using plain_items[OF pl t] by simp
      from each[OF JArr this] JArr show ?thesis by (simp add: stripAt_items)
    qed (use plain_items[OF pl t] IH[OF sub[OF t]] in \<open>simp_all add: stripAt_items\<close>)
  next
    assume "\<not> truthy (field schema ''items'')"
    then show "stripAt ''items'' (field schema ''items'') = field schema ''items''"
      unfolding stripAt_items by (cases "field schema ''items''") (simp_all add: stripKeys_other)
  next
    show "\<not> truthy JUndef" by simp
  qed
  have prp: "rewrite k truthy (convertProperties ?rec) schema (a, r) = Inr (upd k a, r)"
    if k: "k \<in> {''properties'', ''patternProperties''}" and "distinct (map fst a)"
      and "field schema k = field (JObj a) k" for k a r
  proof (rule rewrite_plain[OF that(2,3)])
    assume t: "truthy (field schema k)"
    from plain_properties[OF pl t k] obtain ps where ps: "field schema k = JObj ps" "\<forall>p \<in> set ps. plain (snd p)"
      by blast
    show "convertProperties ?rec (field schema k) r = Inr (stripAt k (field schema k), r)"
      unfolding stripAt_properties[OF k] using props[OF ps] ps(1) by simp
  next
    assume "\<not> truthy (field schema k)"
    then show "stripAt k (field schema k) = field schema k"
      unfolding stripAt_properties[OF k] by (cases "field schema k") simp_all
  next
    show "\<not> truthy JUndef" by simp
  qed
  let ?a1 = "upd ''allOf'' ?a0"
  let ?a2 = "upd ''anyOf'' ?a1"
  let ?a3 = "upd ''oneOf'' ?a2"
  let ?a4 = "upd ''not'' ?a3"
  let ?a5 = "upd ''items'' ?a4"
  let ?a6 = "upd ''additionalItems'' ?a5"
  let ?a7 = "upd ''properties'' ?a6"
  let ?a8 = "upd ''patternProperties'' ?a7"
  let ?a9 = "upd ''additionalProperties'' ?a8"
  have dd: "distinct (map fst (upd k a)) = distinct (map fst a)" for k a
    by simp
  have ff: "field (JObj (upd k a)) k' = field (JObj a) k'" if "k' \<noteq> k" for k k' a
    using that by (rule field_upd_other)
  have s1: "rewrite ''allOf'' truthy (convertEach ?rec) schema (?a0, refs) = Inr (?a1, refs)"
    by (rule arr) (simp_all add: d0 f0[symmetric] recursion_keys_def del: field.simps)
  have s2: "rewrite ''anyOf'' truthy (convertEach ?rec) schema (?a1, refs) = Inr (?a2, refs)"
    by (rule arr) (simp_all add: d0 f0[symmetric] recursion_keys_def del: field.simps)
  have s3: "rewrite ''oneOf'' truthy (convertEach ?rec) schema (?a2, refs) = Inr (?a3, refs)"
    by (rule arr) (simp_all add: d0 f0[symmetric] recursion_keys_def del: field.simps)
  have s4: "rewrite ''not'' truthy ?rec schema (?a3, refs) = Inr (?a4, refs)"
    by (rule one) (simp_all add: d0 f0[symmetric] recursion_keys_def del: field.simps)
  have s5: "rewrite ''items'' truthy
                 (\<lambda>items r. if isArray items then convertEach ?rec items r else ?rec items r)
                 schema (?a4, refs) = Inr (?a5, refs)"
    by (rule items) (simp_all add: d0 f0[symmetric] recursion_keys_def del: field.simps)
  have s6: "rewrite ''additionalItems'' objectLike ?rec schema (?a5, refs) = Inr (?a6, refs)"
    by (rule one) (simp_all add: d0 f0[symmetric] recursion_keys_def del: field.simps)
  have s7: "rewrite ''properties'' truthy (convertProperties ?rec) schema (?a6, refs) = Inr (?a7, refs)"
    by (rule prp) (simp_all add: d0 f0[symmetric] recursion_keys_def del: field.simps)
  have s8: "rewrite ''patternProperties'' truthy (convertProperties ?rec) schema (?a7, refs) = Inr (?a8, refs)"
    by (rule prp) (simp_all add: d0 f0[symmetric] recursion_keys_def del: field.simps)
  have s9: "rewrite ''additionalProperties'' objectLike ?rec schema (?a8, refs) = Inr (?a9, refs)"
    by (rule one) (simp_all add: d0 f0[symmetric] recursion_keys_def del: field.simps)
  have nn0: "\<not> nullish schema" using kvs by (simp add: nullish_def)
  have nt: "\<not> truthy (field schema ''$ref'')" using nr by simp
  have "convertSubSchema schema refs swagger = Inr (JObj ?a9, refs)"
    by (subst convertSubSchema.simps)
       (simp only: nn0 nt if_False fx s1 s2 s3 s4 s5 s6 s7 s8 s9 bindE_simps fst_conv snd_conv)
  also have "JObj ?a9 = stripKeys schema"
    unfolding upd_all kvs stripKeys_obj a0[unfolded kvs] ..
  finally show ?case .
qed

lemma field_stripKeys_absent:
  assumes "schema = JObj kvs" "map_of kvs k = None"
  shows "field (stripKeys schema) k = JUndef"
proof -
  have "k \<notin> fst ` set kvs" using assms(2) by (simp add: map_of_eq_None_iff)
  then have "k \<notin> fst ` set (map (\<lambda>kv. (fst kv, stripAt (fst kv) (snd kv)))
                                (filter (\<lambda>kv. \<not> removed_key (fst kv)) kvs))"
    by (auto simp: image_iff)
  then have "map_of (map (\<lambda>kv. (fst kv, stripAt (fst kv) (snd kv)))
                        (filter (\<lambda>kv. \<not> removed_key (fst kv)) kvs)) k = None"
    by (simp only: map_of_eq_None_iff simp_thms)
  then show ?thesis unfolding assms(1) stripKeys_obj by simp
qed

text \<open>Schemas used as concrete inputs below.\<close>

definition annotated_schema :: json where
  "annotated_schema =
     JObj [(''type'', JStr ''object''), (''x-foo'', JNum 1), (''readOnly'', JBool True),
           (''example'', JNum 0),
           (''properties'', JObj [(''xml'', JObj [(''type'', JStr ''string''), (''xml'', JNull)])])]"

definition annotated_result :: json where
  "annotated_result =
     JObj [(''type'', JStr ''object''),
           (''properties'', JObj [(''xml'', JObj [(''type'', JStr ''string'')])])]"

lemma annotated_plain: "plain annotated_schema"
  by code_simp

lemma annotated_strip: "stripKeys annotated_schema = annotated_result"
  by code_simp

definition example_schema :: json where
  "example_schema = JObj [(''type'', JStr ''string''), (''example'', JStr ''abc'')]"

lemma example_eval:
  "convertSchema example_schema JNull JNull True
     = Inr (JObj [(''type'', JStr ''string''), (''examples'', JArr [JStr ''abc''])])"
  by code_simp

lemma example_strip: "stripKeys example_schema = JObj [(''type'', JStr ''string'')]"
  by code_simp

definition constructor_schema :: json where
  "constructor_schema = JObj [(''type'', JStr ''object''), (''constructor'', JNum 1)]"

lemma constructor_eval:
  "convertSchema constructor_schema JNull JNull True = Inr (JObj [(''type'', JStr ''object'')])"
  by code_simp

lemma constructor_strip: "stripKeys constructor_schema = constructor_schema"
  by code_simp

definition malformed_schema :: json where
  "malformed_schema = JObj [(''type'', JStr ''object''), (''allOf'', JStr ''x'')]"

lemma malformed_eval: "convertSchema malformed_schema JNull JNull True = Inl TypeError"
  by code_simp

section \<open>The references of a schema\<close>









subsection \<open>The conversion collects exactly these\<close>





subsection \<open>The errors the copying loop can end with\<close>














section \<open>References in the result\<close>

subsection \<open>The converted node has the references of the schema\<close>













subsection \<open>The scanner finds the references of a definition\<close>






subsection \<open>A value without references\<close>





subsection \<open>What the copying loop leaves behind\<close>






subsection \<open>References and the definitions they name\<close>




















section \<open>The program on a heap\<close>

text \<open>
  The model above passes values, so it cannot tell an object from a copy of it.  Whether a
  call writes to an object it was given is a question about identity: here the program is
  modelled again, statement by statement, on a heap.  An object or an array is a cell of the
  heap, a value is a primitive or the address of a cell, and a heap is the list of its cells
  in the order of their creation.
\<close>

type_synonym addr = nat

datatype hval = VUndef | VNull | VBool bool | VNum int | VStr string | VRef addr

datatype hobj = Obj "(string \<times> hval) list" | Arr "hval list"

type_synonym heap = "hobj list"

text \<open>
  The recursive functions take fuel, one unit for each nested call: a call returns a value,
  throws, or is \<open>Unfinished\<close> when the fuel does not suffice.
\<close>

datatype 'a outcome = Returned 'a | Thrown error | Unfinished

definition bindO :: "'a outcome \<Rightarrow> ('a \<Rightarrow> 'b outcome) \<Rightarrow> 'b outcome" where
  "bindO m f = (case m of Returned x \<Rightarrow> f x | Thrown e \<Rightarrow> Thrown e | Unfinished \<Rightarrow> Unfinished)"

text \<open>
  Reading a cell, creating one at the end of the heap, and replacing one.  An address
  outside the heap, which no value of a run holds, reads as the empty object.
\<close>

definition load :: "heap \<Rightarrow> addr \<Rightarrow> hobj" where
  "load h a = (if a < length h then h ! a else Obj [])"

definition alloc :: "hobj \<Rightarrow> heap \<Rightarrow> hval \<times> heap" where
  "alloc ob h = (VRef (length h), h @ [ob])"

definition store :: "addr \<Rightarrow> hobj \<Rightarrow> heap \<Rightarrow> heap" where
  "store a ob h = h[a := ob]"

text \<open>The tests and property reads of the value model, on heap values.\<close>

fun truthy_h :: "hval \<Rightarrow> bool" where
  "truthy_h VUndef = False"
| "truthy_h VNull = False"
| "truthy_h (VBool b) = b"
| "truthy_h (VNum n) = (n \<noteq> 0)"
| "truthy_h (VStr s) = (s \<noteq> [])"
| "truthy_h (VRef a) = True"

definition nullish_h :: "hval \<Rightarrow> bool" where
  "nullish_h v = (v = VNull \<or> v = VUndef)"

fun isObject_h :: "hval \<Rightarrow> bool" where
  "isObject_h (VRef a) = True"
| "isObject_h v = False"

definition isArray_h :: "heap \<Rightarrow> hval \<Rightarrow> bool" where
  "isArray_h h v = (case v of VRef a \<Rightarrow> (case load h a of Arr xs \<Rightarrow> True | Obj kvs \<Rightarrow> False) | _ \<Rightarrow> False)"

definition own_entries_h :: "heap \<Rightarrow> hval \<Rightarrow> (string \<times> hval) list" where
  "own_entries_h h v =
     (case v of
        VRef a \<Rightarrow> (case load h a of
                     Obj kvs \<Rightarrow> kvs
                   | Arr xs \<Rightarrow> zip (map show_nat [0..<length xs]) xs)
      | VStr s \<Rightarrow> zip (map show_nat [0..<length s]) (map (\<lambda>c. VStr [c]) s)
      | _ \<Rightarrow> [])"

definition elements_h :: "heap \<Rightarrow> hval \<Rightarrow> hval list" where
  "elements_h h v = (case v of VRef a \<Rightarrow> (case load h a of Arr xs \<Rightarrow> xs | Obj kvs \<Rightarrow> []) | _ \<Rightarrow> [])"

definition entry :: "(string \<times> hval) list \<Rightarrow> string \<Rightarrow> hval" where
  "entry kvs k = (case map_of kvs k of None \<Rightarrow> VUndef | Some x \<Rightarrow> x)"

definition get_h :: "heap \<Rightarrow> hval \<Rightarrow> string \<Rightarrow> hval outcome" where
  "get_h h v k = (if nullish_h v then Thrown TypeError else Returned (entry (own_entries_h h v) k))"

definition field_h :: "heap \<Rightarrow> hval \<Rightarrow> string \<Rightarrow> hval" where
  "field_h h v k =
     (case v of
        VRef a \<Rightarrow> (case load h a of Obj kvs \<Rightarrow> entry kvs k | Arr xs \<Rightarrow> VUndef)
      | _ \<Rightarrow> VUndef)"

text \<open>
  \<^verbatim>\<open>target.k = v\<close> for a name \<open>k\<close> that the source spells out; the targets are the
  converted node and the result, which are plain objects.
\<close>

definition set_field_h :: "hval \<Rightarrow> string \<Rightarrow> hval \<Rightarrow> heap \<Rightarrow> heap" where
  "set_field_h target k v h =
     (case target of
        VRef a \<Rightarrow> (case load h a of
                     Obj kvs \<Rightarrow> store a (Obj (AList.update k v kvs)) h
                   | Arr xs \<Rightarrow> h)
      | _ \<Rightarrow> h)"

text \<open>
  \<^verbatim>\<open>target[key] = v\<close> for a computed key, in strict mode: it throws on a primitive.  On an
  object without an own \<^verbatim>\<open>__proto__\<close>, assigning to that key creates no property.  On an
  array the keys of the source are its own indices.
\<close>

definition assign :: "hval \<Rightarrow> string \<Rightarrow> hval \<Rightarrow> heap \<Rightarrow> heap outcome" where
  "assign target key v h =
     (case target of
        VRef a \<Rightarrow>
          (case load h a of
             Obj kvs \<Rightarrow>
               if key = ''__proto__'' \<and> key \<notin> fst ` set kvs then Returned h
               else Returned (store a (Obj (AList.update key v kvs)) h)
           | Arr xs \<Rightarrow>
               (case find (\<lambda>i. show_nat i = key) [0..<length xs] of
                  Some i \<Rightarrow> Returned (store a (Arr (xs[i := v])) h)
                | None \<Rightarrow> Returned h))
      | _ \<Rightarrow> Thrown TypeError)"

text \<open>\<^verbatim>\<open>lookupReference\<close>: it reads the heap and writes nothing.\<close>

fun walk_h :: "heap \<Rightarrow> string list \<Rightarrow> hval \<Rightarrow> nat option \<Rightarrow> nat \<Rightarrow> hval outcome" where
  "walk_h h [] v depth cur = Returned v"
| "walk_h h (key # parts) v depth cur =
     (if v = VUndef then Returned v
      else bindO (get_h h v key) (\<lambda>v'.
             if depth \<noteq> Some 0 \<and> depth = Some (cur + 1) then Returned v'
             else walk_h h parts v' depth (cur + 1)))"

definition lookupReference_h :: "heap \<Rightarrow> hval \<Rightarrow> hval \<Rightarrow> nat option \<Rightarrow> (string option \<times> hval) outcome" where
  "lookupReference_h h reference root depth =
     (case reference of
        VStr s \<Rightarrow>
          (case split (CHR ''/'') s of
             [] \<Rightarrow> Thrown InvalidReferenceRoot
           | p0 # ps \<Rightarrow>
               if p0 \<noteq> ''#'' then Thrown InvalidReferenceRoot
               else (case ps of
                       [] \<Rightarrow> Thrown InvalidReferenceTarget
                     | p1 # parts \<Rightarrow>
                         if p1 \<noteq> ''definitions'' then Thrown InvalidReferenceTarget
                         else if nullish_h root then Thrown TypeError
                         else bindO (walk_h h parts (field_h h root ''definitions'') depth 2) (\<lambda>v.
                           if v = VUndef then Thrown (ReferenceNotFound s)
                           else Returned (case parts of [] \<Rightarrow> None | i # _ \<Rightarrow> Some i, v))))
      | _ \<Rightarrow> Thrown TypeError)"

definition forEach_entries_h :: "heap \<Rightarrow> hval \<Rightarrow> (string \<times> hval) list" where
  "forEach_entries_h h v =
     (case v of
        VRef a \<Rightarrow>
          (case load h a of
             Obj kvs \<Rightarrow>
               (case map_of kvs ''length'' of
                  Some (VNum n) \<Rightarrow>
                    if 0 \<le> n \<and> n \<le> 9007199254740991
                    then map (\<lambda>i. (show_nat i, entry kvs (show_nat i))) [0..<nat n]
                    else kvs
                | _ \<Rightarrow> kvs)
           | Arr xs \<Rightarrow> own_entries_h h v)
      | _ \<Rightarrow> own_entries_h h v)"

text \<open>
  Loops over a list that thread a state (the heap, or the collected references and the
  heap), loops that only read, and \<^verbatim>\<open>some\<close>.
\<close>

fun mapO :: "('a \<Rightarrow> 's \<Rightarrow> ('b \<times> 's) outcome) \<Rightarrow> 'a list \<Rightarrow> 's \<Rightarrow> ('b list \<times> 's) outcome" where
  "mapO f [] s = Returned ([], s)"
| "mapO f (x # xs) s =
     bindO (f x s) (\<lambda>r. bindO (mapO f xs (snd r)) (\<lambda>rs. Returned (fst r # fst rs, snd rs)))"

fun forO :: "('a \<Rightarrow> 's \<Rightarrow> 's outcome) \<Rightarrow> 'a list \<Rightarrow> 's \<Rightarrow> 's outcome" where
  "forO f [] s = Returned s"
| "forO f (x # xs) s = bindO (f x s) (forO f xs)"

fun mapR :: "('a \<Rightarrow> 'b outcome) \<Rightarrow> 'a list \<Rightarrow> 'b list outcome" where
  "mapR f [] = Returned []"
| "mapR f (x # xs) = bindO (f x) (\<lambda>y. bindO (mapR f xs) (\<lambda>ys. Returned (y # ys)))"

fun someR :: "('a \<Rightarrow> bool outcome) \<Rightarrow> 'a list \<Rightarrow> bool outcome" where
  "someR f [] = Returned False"
| "someR f (x # xs) = bindO (f x) (\<lambda>found. if found then Returned True else someR f xs)"

text \<open>
  \<^verbatim>\<open>dereference\<close>.  \<^verbatim>\<open>example.map(...)\<close> creates an array; for an object, \<^verbatim>\<open>result\<close>
  is a new object, written once for each pair.  The arrays \<^verbatim>\<open>paths\<close> and \<^verbatim>\<open>path\<close> are
  created by the calls themselves and hold strings: they stay lists.
\<close>

definition isReference_h :: "heap \<Rightarrow> hval \<Rightarrow> bool" where
  "isReference_h h example = (case field_h h example ''$ref'' of VStr r \<Rightarrow> r \<noteq> [] | _ \<Rightarrow> False)"

definition refString_h :: "heap \<Rightarrow> hval \<Rightarrow> string" where
  "refString_h h example = (case field_h h example ''$ref'' of VStr r \<Rightarrow> r | _ \<Rightarrow> [])"

primrec dereference_h ::
  "nat \<Rightarrow> hval \<Rightarrow> hval \<Rightarrow> string list option \<Rightarrow> string list option \<Rightarrow> heap \<Rightarrow> (hval \<times> heap) outcome" where
  "dereference_h 0 = (\<lambda>example root paths path h. Unfinished)"
| "dereference_h (Suc fuel) = (\<lambda>example root paths path h.
     if nullish_h example then Returned (example, h)
     else if isReference_h h example then
       (if path \<noteq> None \<and> pathHasCircularReference paths path (refString_h h example)
        then Returned (VNull, h)
        else bindO (lookupReference_h h (VStr (refString_h h example)) root None) (\<lambda>ref.
               dereference_h fuel (snd ref) root
                 (Some (orEmpty paths @ [join (CHR ''/'') (orEmpty path)]))
                 (Some (split (CHR ''/'') (refString_h h example))) h))
     else if isArray_h h example then
       bindO (mapO (\<lambda>value. dereference_h fuel value root paths path) (elements_h h example) h)
         (\<lambda>r. Returned (alloc (Arr (fst r)) (snd r)))
     else if isObject_h example then
       (case alloc (Obj []) h of (result, h1) \<Rightarrow>
          bindO (forO (\<lambda>kv s. bindO (dereference_h fuel (snd kv) root paths
                                        (Some (orEmpty path @ [fst kv])) s)
                                 (\<lambda>r. assign result (fst kv) (fst r) (snd r)))
                      (forEach_entries_h h example) h1)
            (\<lambda>h2. Returned (result, h2)))
     else Returned (example, h))"

text \<open>
  lodash's \<^verbatim>\<open>cloneDeep\<close>, \<^verbatim>\<open>omit\<close> and \<^verbatim>\<open>omitBy\<close>: each returns a new object and
  writes to no other; \<^verbatim>\<open>cloneDeep\<close> copies every object and array below its argument,
  \<^verbatim>\<open>omit\<close> and \<^verbatim>\<open>omitBy\<close> copy the entries they keep.
\<close>

primrec cloneDeep :: "nat \<Rightarrow> hval \<Rightarrow> heap \<Rightarrow> (hval \<times> heap) outcome" where
  "cloneDeep 0 = (\<lambda>v h. Unfinished)"
| "cloneDeep (Suc fuel) = (\<lambda>v h.
     case v of
       VRef a \<Rightarrow>
         (case load h a of
            Obj kvs \<Rightarrow>
              bindO (mapO (\<lambda>kv s. bindO (cloneDeep fuel (snd kv) s)
                                     (\<lambda>r. Returned ((fst kv, fst r), snd r))) kvs h)
                (\<lambda>r. Returned (alloc (Obj (fst r)) (snd r)))
          | Arr xs \<Rightarrow>
              bindO (mapO (cloneDeep fuel) xs h) (\<lambda>r. Returned (alloc (Arr (fst r)) (snd r))))
     | _ \<Rightarrow> Returned (v, h))"

definition omit_h :: "string list \<Rightarrow> hval \<Rightarrow> heap \<Rightarrow> hval \<times> heap" where
  "omit_h keys object h = alloc (Obj (filter (\<lambda>kv. fst kv \<notin> set keys) (own_entries_h h object))) h"

definition omitBy_h :: "(string \<Rightarrow> bool) \<Rightarrow> hval \<Rightarrow> heap \<Rightarrow> hval \<times> heap" where
  "omitBy_h p object h =
     alloc (Obj (filter (\<lambda>kv. \<not> p (fst kv) \<and> fst kv \<notin> set unsafe_keys) (own_entries_h h object))) h"

text \<open>
  The statements of \<open>convertSubSchema\<close> that write to \<^verbatim>\<open>actualSchema\<close>, and
  \<^verbatim>\<open>actualSchema.enum.push(null)\<close>, which writes to the array that
  \<^verbatim>\<open>actualSchema.enum\<close> is at that moment.
\<close>

definition fixFileType_h :: "hval \<Rightarrow> hval \<Rightarrow> heap \<Rightarrow> heap" where
  "fixFileType_h schema actualSchema h =
     (if field_h h schema ''type'' = VStr ''file''
      then set_field_h actualSchema ''type'' (VStr ''string'') h
      else h)"

definition fixExample_h :: "nat \<Rightarrow> hval \<Rightarrow> hval \<Rightarrow> hval \<Rightarrow> heap \<Rightarrow> heap outcome" where
  "fixExample_h fuel schema swagger actualSchema h =
     (if truthy_h (field_h h schema ''example'')
      then bindO (dereference_h fuel (field_h h schema ''example'') swagger None None h) (\<lambda>r.
             case alloc (Arr [fst r]) (snd r) of (examples, h1) \<Rightarrow>
               Returned (set_field_h actualSchema ''examples'' examples h1))
      else Returned h)"

definition includes_null_h :: "heap \<Rightarrow> hval \<Rightarrow> bool outcome" where
  "includes_null_h h e =
     (case e of
        VRef a \<Rightarrow> (case load h a of Arr xs \<Rightarrow> Returned (VNull \<in> set xs) | Obj kvs \<Rightarrow> Thrown TypeError)
      | VStr s \<Rightarrow> Returned (sublist ''null'' s)
      | _ \<Rightarrow> Thrown TypeError)"

definition push_null_h :: "hval \<Rightarrow> heap \<Rightarrow> heap outcome" where
  "push_null_h e h =
     (case e of
        VRef a \<Rightarrow> (case load h a of
                     Arr xs \<Rightarrow> Returned (store a (Arr (xs @ [VNull])) h)
                   | Obj kvs \<Rightarrow> Thrown TypeError)
      | _ \<Rightarrow> Thrown TypeError)"

definition fixNullable_h :: "hval \<Rightarrow> hval \<Rightarrow> heap \<Rightarrow> heap outcome" where
  "fixNullable_h schema actualSchema h =
     (if truthy_h (field_h h schema ''x-nullable'') then
        (let typed =
           (if truthy_h (field_h h actualSchema ''type'')
            then (case alloc (Arr [field_h h actualSchema ''type'', VStr ''null'']) h of
                    (widened, h1) \<Rightarrow> set_field_h actualSchema ''type'' widened h1)
            else if field_h h actualSchema ''enum'' = VUndef
            then set_field_h actualSchema ''type'' (VStr ''null'') h
            else h)
         in if truthy_h (field_h typed actualSchema ''enum'')
            then bindO (includes_null_h typed (field_h typed actualSchema ''enum'')) (\<lambda>has.
                   if has then Returned typed
                   else push_null_h (field_h typed actualSchema ''enum'') typed)
            else Returned typed)
      else Returned h)"

text \<open>
  The state of the conversion: the array \<^verbatim>\<open>references\<close>, which \<open>convertSchema\<close>
  creates and only the conversion appends to, and the heap.
\<close>

type_synonym cstate = "hval list \<times> heap"

definition convertEach_h ::
  "(hval \<Rightarrow> cstate \<Rightarrow> (hval \<times> cstate) outcome) \<Rightarrow> hval \<Rightarrow> cstate \<Rightarrow> (hval \<times> cstate) outcome" where
  "convertEach_h f v st =
     (if isArray_h (snd st) v
      then bindO (mapO f (elements_h (snd st) v) st) (\<lambda>r.
             case alloc (Arr (fst r)) (snd (snd r)) of (converted, h1) \<Rightarrow>
               Returned (converted, fst (snd r), h1))
      else Thrown TypeError)"

definition rewrite_h ::
  "string \<Rightarrow> (hval \<Rightarrow> bool) \<Rightarrow> (hval \<Rightarrow> cstate \<Rightarrow> (hval \<times> cstate) outcome) \<Rightarrow> hval \<Rightarrow> hval
     \<Rightarrow> cstate \<Rightarrow> cstate outcome" where
  "rewrite_h key guard conv schema actualSchema st =
     (if guard (field_h (snd st) schema key)
      then bindO (conv (field_h (snd st) schema key) st) (\<lambda>r.
             Returned (fst (snd r), set_field_h actualSchema key (fst r) (snd (snd r))))
      else Returned st)"

text \<open>
  The loop over \<^verbatim>\<open>Object.keys(schema[name])\<close>:
  \<^verbatim>\<open>actualSchema[name][key] = recurseConvertSubSchema(schema[name][key])\<close>, the target
  read again at each turn.
\<close>

definition convertProperties_h ::
  "string \<Rightarrow> (hval \<Rightarrow> cstate \<Rightarrow> (hval \<times> cstate) outcome) \<Rightarrow> hval \<Rightarrow> hval \<Rightarrow> cstate \<Rightarrow> cstate outcome" where
  "convertProperties_h name f schema actualSchema st =
     (if truthy_h (field_h (snd st) schema name)
      then forO (\<lambda>key s.
             bindO (f (entry (own_entries_h (snd s) (field_h (snd s) schema name)) key) s) (\<lambda>r.
             bindO (assign (field_h (snd (snd r)) actualSchema name) key (fst r) (snd (snd r))) (\<lambda>h1.
               Returned (fst (snd r), h1))))
             (map fst (own_entries_h (snd st) (field_h (snd st) schema name))) st
      else Returned st)"

definition objectLike_h :: "hval \<Rightarrow> bool" where
  "objectLike_h v = (truthy_h v \<and> isObject_h v)"

text \<open>
  \<^verbatim>\<open>convertSubSchema\<close>; the \<open>swagger\<close> document comes first, so that the function of a
  schema can be passed to the loops.
\<close>

primrec convertSubSchema_h :: "nat \<Rightarrow> hval \<Rightarrow> hval \<Rightarrow> cstate \<Rightarrow> (hval \<times> cstate) outcome" where
  "convertSubSchema_h 0 = (\<lambda>swagger schema st. Unfinished)"
| "convertSubSchema_h (Suc fuel) = (\<lambda>swagger schema st.
     if nullish_h schema then Thrown TypeError
     else if truthy_h (field_h (snd st) schema ''$ref'')
     then (case alloc (Obj [(''$ref'', field_h (snd st) schema ''$ref'')]) (snd st) of
             (reference, h1) \<Rightarrow>
               Returned (reference, fst st @ [field_h (snd st) schema ''$ref''], h1))
     else
       (case omit_h omitted_keys schema (snd st) of (omitted, h1) \<Rightarrow>
        case omitBy_h isExtension omitted h1 of (picked, h2) \<Rightarrow>
        bindO (cloneDeep fuel picked h2) (\<lambda>cloned.
        case cloned of (actualSchema, h3) \<Rightarrow>
        bindO (fixExample_h fuel schema swagger actualSchema (fixFileType_h schema actualSchema h3)) (\<lambda>h4.
        bindO (fixNullable_h schema actualSchema h4) (\<lambda>h5.
        bindO (rewrite_h ''allOf'' truthy_h (convertEach_h (convertSubSchema_h fuel swagger))
                 schema actualSchema (fst st, h5)) (\<lambda>st.
        bindO (rewrite_h ''anyOf'' truthy_h (convertEach_h (convertSubSchema_h fuel swagger))
                 schema actualSchema st) (\<lambda>st.
        bindO (rewrite_h ''oneOf'' truthy_h (convertEach_h (convertSubSchema_h fuel swagger))
                 schema actualSchema st) (\<lambda>st.
        bindO (rewrite_h ''not'' truthy_h (convertSubSchema_h fuel swagger) schema actualSchema st) (\<lambda>st.
        bindO (rewrite_h ''items'' truthy_h
                 (\<lambda>items s. if isArray_h (snd s) items
                             then convertEach_h (convertSubSchema_h fuel swagger) items s
                             else convertSubSchema_h fuel swagger items s)
                 schema actualSchema st) (\<lambda>st.
        bindO (rewrite_h ''additionalItems'' objectLike_h (convertSubSchema_h fuel swagger)
                 schema actualSchema st) (\<lambda>st.
        bindO (convertProperties_h ''properties'' (convertSubSchema_h fuel swagger)
                 schema actualSchema st) (\<lambda>st.
        bindO (convertProperties_h ''patternProperties'' (convertSubSchema_h fuel swagger)
                 schema actualSchema st) (\<lambda>st.
        bindO (rewrite_h ''additionalProperties'' objectLike_h (convertSubSchema_h fuel swagger)
                 schema actualSchema st) (\<lambda>st.
        Returned (actualSchema, st)))))))))))))))"

text \<open>\<^verbatim>\<open>checkSchemaHasReferences\<close> and \<^verbatim>\<open>findReferences\<close>: they read the heap and write nothing.\<close>

primrec checkSchemaHasReferences_h :: "nat \<Rightarrow> heap \<Rightarrow> hval \<Rightarrow> bool outcome" where
  "checkSchemaHasReferences_h 0 = (\<lambda>h schema. Unfinished)"
| "checkSchemaHasReferences_h (Suc fuel) = (\<lambda>h schema.
     if nullish_h schema then Thrown TypeError
     else if truthy_h (field_h h schema ''$ref'') then Returned True
     else someR (\<lambda>value.
            if isArray_h h value then someR (checkSchemaHasReferences_h fuel h) (elements_h h value)
            else if isObject_h value then checkSchemaHasReferences_h fuel h value
            else Returned False)
          (map snd (own_entries_h h schema)))"

definition collect_h ::
  "heap \<Rightarrow> string \<Rightarrow> (hval \<Rightarrow> bool) \<Rightarrow> (hval \<Rightarrow> hval list outcome) \<Rightarrow> hval \<Rightarrow> hval list \<Rightarrow> hval list outcome" where
  "collect_h h key guard scan schema references =
     (if guard (field_h h schema key)
      then bindO (scan (field_h h schema key)) (\<lambda>found. Returned (references @ found))
      else Returned references)"

definition findEach_h :: "heap \<Rightarrow> (hval \<Rightarrow> hval list outcome) \<Rightarrow> hval \<Rightarrow> hval list outcome" where
  "findEach_h h f v =
     (if isArray_h h v
      then bindO (mapR f (elements_h h v)) (\<lambda>found. Returned (concat found))
      else Thrown TypeError)"

definition spread_h :: "heap \<Rightarrow> hval list \<Rightarrow> hval list" where
  "spread_h h found = concat (map (\<lambda>r. if isArray_h h r then elements_h h r else [r]) found)"

definition findProperties_h :: "heap \<Rightarrow> (hval \<Rightarrow> hval list outcome) \<Rightarrow> hval \<Rightarrow> hval list outcome" where
  "findProperties_h h f v =
     bindO (mapR f (map snd (own_entries_h h v))) (\<lambda>found. Returned (concat found))"

primrec findReferences_h :: "nat \<Rightarrow> heap \<Rightarrow> hval \<Rightarrow> hval list outcome" where
  "findReferences_h 0 = (\<lambda>h schema. Unfinished)"
| "findReferences_h (Suc fuel) = (\<lambda>h schema.
     if nullish_h schema then Thrown TypeError
     else if truthy_h (field_h h schema ''$ref'') then Returned [field_h h schema ''$ref'']
     else
       bindO (collect_h h ''allOf'' truthy_h (findEach_h h (findReferences_h fuel h)) schema []) (\<lambda>references.
       bindO (collect_h h ''anyOf'' truthy_h (findEach_h h (findReferences_h fuel h)) schema references) (\<lambda>references.
       bindO (collect_h h ''oneOf'' truthy_h (findEach_h h (findReferences_h fuel h)) schema references) (\<lambda>references.
       bindO (collect_h h ''not'' truthy_h
                (\<lambda>v. bindO (findReferences_h fuel h v) (\<lambda>found. Returned (spread_h h found)))
                schema references) (\<lambda>references.
       bindO (collect_h h ''items'' truthy_h
                (\<lambda>items. if isArray_h h items then findEach_h h (findReferences_h fuel h) items
                          else findReferences_h fuel h items) schema references) (\<lambda>references.
       bindO (collect_h h ''additionalItems'' objectLike_h (findReferences_h fuel h) schema references) (\<lambda>references.
       bindO (collect_h h ''properties'' truthy_h (findProperties_h h (findReferences_h fuel h)) schema references) (\<lambda>references.
       bindO (collect_h h ''patternProperties'' truthy_h (findProperties_h h (findReferences_h fuel h)) schema references) (\<lambda>references.
       collect_h h ''additionalProperties'' objectLike_h (findReferences_h fuel h) schema references)))))))))"

text \<open>
  The loop of \<open>convertSchema\<close>: \<^verbatim>\<open>result.definitions\<close> is read at each turn, and the
  definition found in \<open>root\<close> is stored in it as it is, by its address.
\<close>

primrec copyLoop_h :: "nat \<Rightarrow> hval \<Rightarrow> hval \<Rightarrow> hval list \<Rightarrow> heap \<Rightarrow> heap outcome" where
  "copyLoop_h 0 = (\<lambda>root result references h. Unfinished)"
| "copyLoop_h (Suc fuel) = (\<lambda>root result references h.
     if references = [] then Returned h
     else bindO (lookupReference_h h (last references) root (Some 3)) (\<lambda>lookup.
            if entry (own_entries_h h (field_h h result ''definitions'')) (key_of (fst lookup)) = VUndef
            then bindO (findReferences_h fuel h (snd lookup)) (\<lambda>found.
                 bindO (assign (field_h h result ''definitions'') (key_of (fst lookup)) (snd lookup) h) (\<lambda>h1.
                   copyLoop_h fuel root result (butlast references @ found) h1))
            else copyLoop_h fuel root result (butlast references) h))"

text \<open>\<^verbatim>\<open>convertSchema\<close>.\<close>

definition convertSchema_h ::
  "nat \<Rightarrow> hval \<Rightarrow> hval \<Rightarrow> hval \<Rightarrow> bool \<Rightarrow> heap \<Rightarrow> (hval \<times> heap) outcome" where
  "convertSchema_h fuel schema root swagger copyDefinitions h =
     bindO (convertSubSchema_h fuel swagger schema ([], h)) (\<lambda>converted.
     case converted of (result, references, h1) \<Rightarrow>
     bindO (if copyDefinitions
            then copyLoop_h fuel root result references
                   (if references \<noteq> []
                    then (case alloc (Obj []) h1 of
                            (definitions, h2) \<Rightarrow> set_field_h result ''definitions'' definitions h2)
                    else h1)
            else Returned h1) (\<lambda>h3.
     if truthy_h (field_h h3 result ''$ref'') \<and> copyDefinitions
     then bindO (lookupReference_h h3 (field_h h3 result ''$ref'') root None) (\<lambda>reference.
          bindO (checkSchemaHasReferences_h fuel h3
                   (entry (own_entries_h h3 (field_h h3 result ''definitions'')) (key_of (fst reference)))) (\<lambda>has.
            if \<not> has
            then Returned (entry (own_entries_h h3 (field_h h3 result ''definitions'')) (key_of (fst reference)), h3)
            else (case alloc (Obj [(''$ref'', field_h h3 result ''$ref'')]) h3 of (inner, h4) \<Rightarrow>
                  case alloc (Arr [inner]) h4 of (allOf, h5) \<Rightarrow>
                  Returned (alloc (Obj [(''allOf'', allOf),
                                        (''definitions'', field_h h3 result ''definitions'')]) h5))))
     else Returned (result, h3)))"


subsection \<open>Old objects stay\<close>

lemma bindO_Returned: "bindO m f = Returned y \<longleftrightarrow> (\<exists>x. m = Returned x \<and> f x = Returned y)"
  by (cases m) (auto simp: bindO_def)

lemma prefix_alloc: "prefix h0 h \<Longrightarrow> prefix h0 (snd (alloc ob h))"
  by (simp add: alloc_def prefix_prefix)

lemma alloc_simps [simp]:
  "fst (alloc ob h) = VRef (length h)" "snd (alloc ob h) = h @ [ob]"
  by (simp_all add: alloc_def)

lemma prefix_store: "prefix h0 h \<Longrightarrow> length h0 \<le> a \<Longrightarrow> prefix h0 (store a ob h)"
  by (auto simp: prefix_def store_def list_update_append)

lemma length_store [simp]: "length (store a ob h) = length h"
  by (simp add: store_def)

lemma load_prefix: "prefix h h' \<Longrightarrow> a < length h \<Longrightarrow> load h' a = load h a"
  by (auto simp: prefix_def load_def nth_append)

lemma load_store: "load (store a ob h) b = (if b = a \<and> a < length h then ob else load h b)"
  by (auto simp: load_def store_def)

lemma prefix_length: "prefix h h' \<Longrightarrow> length h \<le> length h'"
  by (rule prefix_length_le)

text \<open>
  A value is fresh for \<open>n\<close> when it is not the address of one of the first \<open>n\<close> cells; an
  object is when all the values in it are.
\<close>

definition fresh :: "nat \<Rightarrow> hval \<Rightarrow> bool" where
  "fresh n v = (case v of VRef b \<Rightarrow> n \<le> b | _ \<Rightarrow> True)"

fun vals :: "hobj \<Rightarrow> hval list" where
  "vals (Obj kvs) = map snd kvs"
| "vals (Arr xs) = xs"

definition fresh_obj :: "nat \<Rightarrow> hobj \<Rightarrow> bool" where
  "fresh_obj n ob = list_all (fresh n) (vals ob)"

definition new_ref :: "heap \<Rightarrow> heap \<Rightarrow> hval \<Rightarrow> bool" where
  "new_ref h h' v = (case v of VRef c \<Rightarrow> length h \<le> c \<and> c < length h' | _ \<Rightarrow> False)"

lemma fresh_mono: "fresh n v \<Longrightarrow> m \<le> n \<Longrightarrow> fresh m v"
  by (auto simp: fresh_def split: hval.splits)

lemma fresh_obj_mono: "fresh_obj n ob \<Longrightarrow> m \<le> n \<Longrightarrow> fresh_obj m ob"
  by (auto simp: fresh_obj_def list_all_iff intro: fresh_mono)

lemma new_ref_fresh: "new_ref h h' v \<Longrightarrow> n \<le> length h \<Longrightarrow> fresh n v"
  by (auto simp: new_ref_def fresh_def split: hval.splits)

lemma mapO_inv:
  assumes "mapO f xs s = Returned r"
    and "P s"
    and "\<And>x s r. x \<in> set xs \<Longrightarrow> P s \<Longrightarrow> f x s = Returned r \<Longrightarrow> P (snd r) \<and> Q (fst r)"
  shows "P (snd r) \<and> list_all Q (fst r)"
  using assms
proof (induction xs arbitrary: s r)
  case Nil
  then show ?case by auto
next
  case (Cons x xs)
  from Cons.prems(1) obtain r1 r2 where
    a: "f x s = Returned r1" and b: "mapO f xs (snd r1) = Returned r2"
    and r: "r = (fst r1 # fst r2, snd r2)"
    by (auto simp: bindO_Returned)
  from Cons.prems(3)[OF _ Cons.prems(2) a] have p: "P (snd r1)" "Q (fst r1)" by simp_all
  have "P (snd r2) \<and> list_all Q (fst r2)"
  proof (rule Cons.IH[OF b p(1)])
    fix y t t' assume "y \<in> set xs" "P t" "f y t = Returned t'"
    then show "P (snd t') \<and> Q (fst t')" using Cons.prems(3)[of y t t'] by simp
  qed
  with p r show ?case by simp
qed

lemma forO_inv:
  assumes "forO f xs s = Returned s'"
    and "P s"
    and "\<And>x s s'. x \<in> set xs \<Longrightarrow> P s \<Longrightarrow> f x s = Returned s' \<Longrightarrow> P s'"
  shows "P s'"
  using assms
proof (induction xs arbitrary: s)
  case Nil
  then show ?case by simp
next
  case (Cons x xs)
  from Cons.prems(1) obtain s1 where a: "f x s = Returned s1" and b: "forO f xs s1 = Returned s'"
    by (auto simp: bindO_Returned)
  from Cons.prems(3)[OF _ Cons.prems(2) a] have "P s1" by simp
  show ?case
  proof (rule Cons.IH[OF b \<open>P s1\<close>])
    fix y t t' assume "y \<in> set xs" "P t" "f y t = Returned t'"
    then show "P t'" using Cons.prems(3)[of y t t'] by simp
  qed
qed

lemma assign_prefix:
  assumes "assign target key v h = Returned h'" and "prefix h0 h" and "fresh (length h0) target"
  shows "prefix h0 h'"
proof -
  from assms(1) obtain a where t: "target = VRef a"
    by (cases target) (auto simp: assign_def)
  with assms(3) have a: "length h0 \<le> a" by (simp add: fresh_def)
  from assms(1) t have "h' = h \<or> (\<exists>ob. h' = store a ob h)"
    by (auto simp: assign_def split: hobj.splits if_splits option.splits)
  with prefix_store[OF assms(2) a] assms(2) show ?thesis by auto
qed

lemma assign_length: "assign target key v h = Returned h' \<Longrightarrow> length h' = length h"
  by (cases target) (auto simp: assign_def split: hobj.splits if_splits option.splits)

lemma dereference_keeps:
  "dereference_h fuel example root paths path h = Returned r \<Longrightarrow> prefix h (snd r)"
proof (induction fuel arbitrary: example root paths path h r)
  case 0
  then show ?case by simp
next
  case (Suc fuel)
  note IH = Suc.IH
  consider (null) "nullish_h example"
    | (ref) "\<not> nullish_h example" "isReference_h h example"
    | (arr) "\<not> nullish_h example" "\<not> isReference_h h example" "isArray_h h example"
    | (obj) "\<not> nullish_h example" "\<not> isReference_h h example" "\<not> isArray_h h example" "isObject_h example"
    | (other) "\<not> nullish_h example" "\<not> isReference_h h example" "\<not> isArray_h h example" "\<not> isObject_h example"
    by blast
  then show ?case
  proof cases
    case null
    with Suc.prems show ?thesis by auto
  next
    case ref
    show ?thesis
    proof (cases "path \<noteq> None \<and> pathHasCircularReference paths path (refString_h h example)")
      case True
      with Suc.prems ref show ?thesis by auto
    next
      case False
      with Suc.prems ref obtain lookup where
        "dereference_h fuel (snd lookup) root
                 (Some (orEmpty paths @ [join (CHR ''/'') (orEmpty path)]))
                 (Some (split (CHR ''/'') (refString_h h example))) h = Returned r"
        by (auto simp: bindO_Returned)
      then show ?thesis by (rule IH)
    qed
  next
    case arr
    with Suc.prems obtain r1 where
      m: "mapO (\<lambda>value. dereference_h fuel value root paths path) (elements_h h example) h = Returned r1"
      and r: "r = alloc (Arr (fst r1)) (snd r1)"
      by (auto simp: bindO_Returned)
    have "prefix h (snd r1) \<and> list_all (\<lambda>x. True) (fst r1)"
    proof (rule mapO_inv[OF m, where P = "prefix h"])
      show "prefix h h" by simp
    next
      fix x s r assume "prefix h s" "dereference_h fuel x root paths path s = Returned r"
      with IH[of x root paths path s r] show "prefix h (snd r) \<and> True" by (auto intro: prefix_order.trans)
    qed
    with r show ?thesis by (simp add: prefix_alloc)
  next
    case obj
    with Suc.prems obtain h2 where
      f: "forO (\<lambda>kv s. bindO (dereference_h fuel (snd kv) root paths
                                        (Some (orEmpty path @ [fst kv])) s)
                                 (\<lambda>r. assign (VRef (length h)) (fst kv) (fst r) (snd r)))
                      (forEach_entries_h h example) (h @ [Obj []]) = Returned h2"
      and r: "r = (VRef (length h), h2)"
      by (auto simp: bindO_Returned alloc_def)
    have "prefix h h2"
    proof (rule forO_inv[OF f, where P = "prefix h"])
      show "prefix h (h @ [Obj []])" by simp
    next
      fix x s s' assume p: "prefix h s"
        and "bindO (dereference_h fuel (snd x) root paths (Some (orEmpty path @ [fst x])) s)
               (\<lambda>r. assign (VRef (length h)) (fst x) (fst r) (snd r)) = Returned s'"
      then obtain r1 where d: "dereference_h fuel (snd x) root paths (Some (orEmpty path @ [fst x])) s = Returned r1"
        and a: "assign (VRef (length h)) (fst x) (fst r1) (snd r1) = Returned s'"
        by (auto simp: bindO_Returned)
      from IH[OF d] p have "prefix h (snd r1)" by (auto intro: prefix_order.trans)
      from assign_prefix[OF a this] show "prefix h s'" by (simp add: fresh_def)
    qed
    with r show ?thesis by simp
  next
    case other
    with Suc.prems show ?thesis by auto
  qed
qed

lemma cloneDeep_fresh:
  "cloneDeep fuel v h = Returned r \<Longrightarrow>
     prefix h (snd r) \<and> fresh (length h) (fst r) \<and>
     (\<forall>a. v = VRef a \<longrightarrow> new_ref h (snd r) (fst r) \<and>
            (\<forall>c. fst r = VRef c \<longrightarrow> fresh_obj (length h) (load (snd r) c)))"
proof (induction fuel arbitrary: v h r)
  case 0
  then show ?case by simp
next
  case (Suc fuel)
  note IH = Suc.IH
  show ?case
  proof (cases v)
    case (VRef a)
    have step: "prefix h (snd r') \<and> fresh (length h) (fst r')"
      if "prefix h s" "cloneDeep fuel x s = Returned r'" for x s r'
    proof -
      from IH[OF that(2)] have "prefix s (snd r')" "fresh (length s) (fst r')" by simp_all
      with that(1) show ?thesis
        by (auto intro: prefix_order.trans fresh_mono prefix_length)
    qed
    show ?thesis
    proof (cases "load h a")
      case (Obj kvs)
      with Suc.prems VRef obtain r1 where
        m: "mapO (\<lambda>kv s. bindO (cloneDeep fuel (snd kv) s)
                                     (\<lambda>r. Returned ((fst kv, fst r), snd r))) kvs h = Returned r1"
        and r: "r = alloc (Obj (fst r1)) (snd r1)"
        by (auto simp: bindO_Returned)
      have "prefix h (snd r1) \<and> list_all (\<lambda>kv. fresh (length h) (snd kv)) (fst r1)"
      proof (rule mapO_inv[OF m, where P = "prefix h"])
        show "prefix h h" by simp
      next
        fix x s r' assume p: "prefix h s"
          and "bindO (cloneDeep fuel (snd x) s) (\<lambda>r. Returned ((fst x, fst r), snd r)) = Returned r'"
        then obtain r2 where "cloneDeep fuel (snd x) s = Returned r2" "r' = ((fst x, fst r2), snd r2)"
          by (auto simp: bindO_Returned)
        with step[OF p] show "prefix h (snd r') \<and> fresh (length h) (snd (fst r'))" by simp
      qed
      then have p: "prefix h (snd r1)" and f: "list_all (\<lambda>kv. fresh (length h) (snd kv)) (fst r1)"
        by simp_all
      from f have "fresh_obj (length h) (Obj (fst r1))"
        by (simp add: fresh_obj_def list_all_iff)
      with p r VRef show ?thesis
        using prefix_length[OF p]
        by (simp add: alloc_def fresh_def new_ref_def load_def prefix_prefix)
    next
      case (Arr xs)
      with Suc.prems VRef obtain r1 where
        m: "mapO (cloneDeep fuel) xs h = Returned r1"
        and r: "r = alloc (Arr (fst r1)) (snd r1)"
        by (auto simp: bindO_Returned)
      have "prefix h (snd r1) \<and> list_all (fresh (length h)) (fst r1)"
      proof (rule mapO_inv[OF m, where P = "prefix h"])
        show "prefix h h" by simp
      next
        fix x s r' assume "prefix h s" "cloneDeep fuel x s = Returned r'"
        then show "prefix h (snd r') \<and> fresh (length h) (fst r')" by (rule step)
      qed
      then have p: "prefix h (snd r1)" and f: "list_all (fresh (length h)) (fst r1)"
        by simp_all
      from f have "fresh_obj (length h) (Arr (fst r1))"
        by (simp add: fresh_obj_def)
      with p r VRef show ?thesis
        using prefix_length[OF p]
        by (simp add: alloc_def fresh_def new_ref_def load_def prefix_prefix)
    qed
  qed (use Suc.prems in \<open>auto simp: fresh_def\<close>)
qed


text \<open>
  What holds of the node under construction \<open>c\<close> from its creation to its return: the heap
  \<open>h0\<close> of the call's start is a prefix of the heap, and \<open>c\<close> is a cell created since
  that holds no address of \<open>h0\<close>.  So \<^verbatim>\<open>actualSchema.enum\<close> and
  \<^verbatim>\<open>actualSchema.properties\<close> are never cells of \<open>h0\<close>.
\<close>

definition node_inv :: "heap \<Rightarrow> addr \<Rightarrow> heap \<Rightarrow> bool" where
  "node_inv h0 c h = (prefix h0 h \<and> length h0 \<le> c \<and> c < length h \<and> fresh_obj (length h0) (load h c))"

lemma inv_prefix: "node_inv h0 c h \<Longrightarrow> prefix h h' \<Longrightarrow> node_inv h0 c h'"
  unfolding node_inv_def using load_prefix[of h h' c] prefix_length[of h h']
  by (auto intro: prefix_order.trans)

lemma inv_alloc: "node_inv h0 c h \<Longrightarrow> node_inv h0 c (snd (alloc ob h))"
  by (erule inv_prefix) (rule prefixI, simp)

lemma alloc_fresh: "prefix h0 h \<Longrightarrow> fresh (length h0) (fst (alloc ob h))"
  using prefix_length[of h0 h] by (simp add: fresh_def)

lemma fresh_update:
  "list_all (fresh n) (map snd kvs) \<Longrightarrow> fresh n v \<Longrightarrow> list_all (fresh n) (map snd (AList.update k v kvs))"
  by (induction kvs) (auto split: if_splits)

lemma fresh_list_update:
  "list_all (fresh n) xs \<Longrightarrow> fresh n v \<Longrightarrow> list_all (fresh n) (xs[i := v])"
  by (auto simp: list_all_iff dest!: subsetD[OF set_update_subset_insert])

lemma inv_store:
  assumes "node_inv h0 c h" and "length h0 \<le> a" and "a = c \<Longrightarrow> fresh_obj (length h0) ob"
  shows "node_inv h0 c (store a ob h)"
  using assms unfolding node_inv_def by (auto simp: prefix_store load_store)

lemma inv_set_field:
  assumes "node_inv h0 c h" and "fresh (length h0) v"
  shows "node_inv h0 c (set_field_h (VRef c) k v h)"
proof (cases "load h c")
  case (Obj kvs)
  from assms(1) have "fresh_obj (length h0) (Obj kvs)" "length h0 \<le> c"
    using Obj by (simp_all add: node_inv_def)
  then have "node_inv h0 c (store c (Obj (AList.update k v kvs)) h)"
    using assms by (intro inv_store) (simp_all add: fresh_obj_def fresh_update)
  with Obj show ?thesis by (simp add: set_field_h_def)
next
  case (Arr xs)
  with assms(1) show ?thesis by (simp add: set_field_h_def)
qed

lemma field_fresh: "node_inv h0 c h \<Longrightarrow> fresh (length h0) (field_h h (VRef c) k)"
proof (cases "load h c")
  case (Obj kvs)
  assume "node_inv h0 c h"
  with Obj have f: "list_all (fresh (length h0)) (map snd kvs)" by (simp add: node_inv_def fresh_obj_def)
  show ?thesis
  proof (cases "map_of kvs k")
    case None
    with Obj show ?thesis by (simp add: field_h_def entry_def fresh_def)
  next
    case (Some x)
    then have "x \<in> snd ` set kvs" by (auto dest!: map_of_SomeD intro: rev_image_eqI)
    with f Some Obj show ?thesis by (auto simp: field_h_def entry_def list_all_iff)
  qed
next
  case (Arr xs)
  then show ?thesis by (simp add: field_h_def fresh_def)
qed

lemma inv_assign:
  assumes "node_inv h0 c h" and "fresh (length h0) target" and "fresh (length h0) v"
    and "assign target key v h = Returned h'"
  shows "node_inv h0 c h'"
proof -
  from assms(4) obtain a where t: "target = VRef a"
    by (cases target) (auto simp: assign_def)
  with assms(2) have a: "length h0 \<le> a" by (simp add: fresh_def)
  show ?thesis
  proof (cases "load h a")
    case (Obj kvs)
    show ?thesis
    proof (cases "key = ''__proto__'' \<and> key \<notin> fst ` set kvs")
      case True
      with assms(4) t Obj have "h' = h" by (auto simp: assign_def)
      with assms(1) show ?thesis by simp
    next
      case False
      with assms(4) t Obj have h': "h' = store a (Obj (AList.update key v kvs)) h"
        by (auto simp: assign_def)
      show ?thesis unfolding h'
      proof (rule inv_store[OF assms(1) a])
        assume "a = c"
        with assms(1) Obj have "list_all (fresh (length h0)) (map snd kvs)"
          by (simp add: node_inv_def fresh_obj_def)
        with assms(3) show "fresh_obj (length h0) (Obj (AList.update key v kvs))"
          by (simp add: fresh_obj_def fresh_update)
      qed
    qed
  next
    case (Arr xs)
    show ?thesis
    proof (cases "find (\<lambda>i. show_nat i = key) [0..<length xs]")
      case None
      with assms(4) t Arr have "h' = h" by (auto simp: assign_def)
      with assms(1) show ?thesis by simp
    next
      case (Some i)
      with assms(4) t Arr have h': "h' = store a (Arr (xs[i := v])) h"
        by (auto simp: assign_def)
      show ?thesis unfolding h'
      proof (rule inv_store[OF assms(1) a])
        assume "a = c"
        with assms(1) Arr have "list_all (fresh (length h0)) xs"
          by (simp add: node_inv_def fresh_obj_def)
        with assms(3) show "fresh_obj (length h0) (Arr (xs[i := v]))"
          by (simp add: fresh_obj_def fresh_list_update)
      qed
    qed
  qed
qed

lemma inv_push:
  assumes "node_inv h0 c h" and "fresh (length h0) e" and "push_null_h e h = Returned h'"
  shows "node_inv h0 c h'"
proof -
  from assms(3) obtain a xs where e: "e = VRef a" and l: "load h a = Arr xs"
    and h': "h' = store a (Arr (xs @ [VNull])) h"
    by (auto simp: push_null_h_def split: hval.splits hobj.splits)
  from e assms(2) have a: "length h0 \<le> a" by (simp add: fresh_def)
  show ?thesis unfolding h'
  proof (rule inv_store[OF assms(1) a])
    assume "a = c"
    with assms(1) l have "list_all (fresh (length h0)) xs" by (simp add: node_inv_def fresh_obj_def)
    then show "fresh_obj (length h0) (Arr (xs @ [VNull]))" by (simp add: fresh_obj_def fresh_def)
  qed
qed

lemma fixFileType_inv: "node_inv h0 c h \<Longrightarrow> node_inv h0 c (fixFileType_h schema (VRef c) h)"
  by (simp add: fixFileType_h_def inv_set_field fresh_def)

lemma fixExample_inv:
  assumes "node_inv h0 c h" and "fixExample_h fuel schema swagger (VRef c) h = Returned h'"
  shows "node_inv h0 c h'"
proof (cases "truthy_h (field_h h schema ''example'')")
  case True
  with assms(2) obtain r where
    d: "dereference_h fuel (field_h h schema ''example'') swagger None None h = Returned r"
    and h': "h' = set_field_h (VRef c) ''examples'' (VRef (length (snd r))) (snd r @ [Arr [fst r]])"
    by (auto simp: fixExample_h_def bindO_Returned alloc_def)
  from inv_prefix[OF assms(1) dereference_keeps[OF d]] have i: "node_inv h0 c (snd r)" .
  from inv_alloc[OF i, of "Arr [fst r]"] have "node_inv h0 c (snd r @ [Arr [fst r]])" by simp
  moreover from i have "fresh (length h0) (VRef (length (snd r)))"
    using prefix_length[of h0 "snd r"] by (simp add: node_inv_def fresh_def)
  ultimately show ?thesis unfolding h' by (rule inv_set_field)
next
  case False
  with assms show ?thesis by (simp add: fixExample_h_def)
qed

lemma fixNullable_inv:
  assumes "node_inv h0 c h" and "fixNullable_h schema (VRef c) h = Returned h'"
  shows "node_inv h0 c h'"
proof (cases "truthy_h (field_h h schema ''x-nullable'')")
  case False
  with assms show ?thesis by (simp add: fixNullable_h_def)
next
  case True
  define typed where "typed =
           (if truthy_h (field_h h (VRef c) ''type'')
            then (case alloc (Arr [field_h h (VRef c) ''type'', VStr ''null'']) h of
                    (widened, h1) \<Rightarrow> set_field_h (VRef c) ''type'' widened h1)
            else if field_h h (VRef c) ''enum'' = VUndef
            then set_field_h (VRef c) ''type'' (VStr ''null'') h
            else h)"
  have t: "node_inv h0 c typed"
  proof (cases "truthy_h (field_h h (VRef c) ''type'')")
    case True
    have "node_inv h0 c (h @ [Arr [field_h h (VRef c) ''type'', VStr ''null'']])"
      using inv_alloc[OF assms(1), of "Arr [field_h h (VRef c) ''type'', VStr ''null'']"] by simp
    moreover have "fresh (length h0) (VRef (length h))"
      using assms(1) prefix_length[of h0 h] by (simp add: node_inv_def fresh_def)
    ultimately show ?thesis using True by (simp add: typed_def alloc_def inv_set_field)
  next
    case False
    with assms(1) show ?thesis by (simp add: typed_def inv_set_field fresh_def)
  qed
  from assms(2) True have r: "(if truthy_h (field_h typed (VRef c) ''enum'')
            then bindO (includes_null_h typed (field_h typed (VRef c) ''enum'')) (\<lambda>has.
                   if has then Returned typed
                   else push_null_h (field_h typed (VRef c) ''enum'') typed)
            else Returned typed) = Returned h'"
    unfolding fixNullable_h_def Let_def typed_def[symmetric] by simp
  show ?thesis
  proof (cases "h' = typed")
    case True
    with t show ?thesis by simp
  next
    case False
    with r have "push_null_h (field_h typed (VRef c) ''enum'') typed = Returned h'"
      by (auto simp: bindO_Returned split: if_splits)
    from inv_push[OF t field_fresh[OF t] this] show ?thesis .
  qed
qed

text \<open>A conversion is good when it keeps the heap it starts from and returns a new cell.\<close>

definition good :: "(hval \<Rightarrow> cstate \<Rightarrow> (hval \<times> cstate) outcome) \<Rightarrow> bool" where
  "good f = (\<forall>v st r. f v st = Returned r
               \<longrightarrow> prefix (snd st) (snd (snd r)) \<and> new_ref (snd st) (snd (snd r)) (fst r))"

lemma goodD:
  "good f \<Longrightarrow> f v st = Returned r \<Longrightarrow> prefix (snd st) (snd (snd r)) \<and> new_ref (snd st) (snd (snd r)) (fst r)"
  unfolding good_def by blast

lemma good_convertEach: assumes "good f" shows "good (convertEach_h f)"
  unfolding good_def
proof (intro allI impI)
  fix v st r assume "convertEach_h f v st = Returned r"
  then obtain r1 where m: "mapO f (elements_h (snd st) v) st = Returned r1"
    and r: "r = (VRef (length (snd (snd r1))), fst (snd r1), snd (snd r1) @ [Arr (fst r1)])"
    by (auto simp: convertEach_h_def bindO_Returned alloc_def split: if_splits)
  have "prefix (snd st) (snd (snd r1)) \<and> list_all (\<lambda>x. True) (fst r1)"
  proof (rule mapO_inv[OF m, where P = "\<lambda>s. prefix (snd st) (snd s)"])
    show "prefix (snd st) (snd st)" by simp
  next
    fix x s r' assume "prefix (snd st) (snd s)" "f x s = Returned r'"
    with goodD[OF assms, of x s r'] show "prefix (snd st) (snd (snd r')) \<and> True"
      by (auto intro: prefix_order.trans)
  qed
  then have p: "prefix (snd st) (snd (snd r1))" by simp
  with r show "prefix (snd st) (snd (snd r)) \<and> new_ref (snd st) (snd (snd r)) (fst r)"
    using prefix_length[OF p] by (simp add: new_ref_def prefix_prefix)
qed

lemma rewrite_inv:
  assumes "good conv" and "node_inv h0 c (snd st)"
    and "rewrite_h key guard conv schema (VRef c) st = Returned st'"
  shows "node_inv h0 c (snd st')"
proof (cases "guard (field_h (snd st) schema key)")
  case False
  with assms show ?thesis by (simp add: rewrite_h_def)
next
  case True
  with assms(3) obtain r where c: "conv (field_h (snd st) schema key) st = Returned r"
    and s: "st' = (fst (snd r), set_field_h (VRef c) key (fst r) (snd (snd r)))"
    by (auto simp: rewrite_h_def bindO_Returned)
  from goodD[OF assms(1) c] have p: "prefix (snd st) (snd (snd r))"
    and n: "new_ref (snd st) (snd (snd r)) (fst r)" by simp_all
  from assms(2) have "length h0 \<le> length (snd st)" by (simp add: node_inv_def prefix_length)
  from new_ref_fresh[OF n this] inv_prefix[OF assms(2) p] s show ?thesis
    by (simp add: inv_set_field)
qed

lemma convertProperties_inv:
  assumes "good f" and "node_inv h0 c (snd st)"
    and "convertProperties_h name f schema (VRef c) st = Returned st'"
  shows "node_inv h0 c (snd st')"
proof (cases "truthy_h (field_h (snd st) schema name)")
  case False
  with assms show ?thesis by (simp add: convertProperties_h_def)
next
  case True
  with assms(3) have l: "forO (\<lambda>key s.
             bindO (f (entry (own_entries_h (snd s) (field_h (snd s) schema name)) key) s) (\<lambda>r.
             bindO (assign (field_h (snd (snd r)) (VRef c) name) key (fst r) (snd (snd r))) (\<lambda>h1.
               Returned (fst (snd r), h1))))
             (map fst (own_entries_h (snd st) (field_h (snd st) schema name))) st = Returned st'"
    by (simp add: convertProperties_h_def)
  show ?thesis
  proof (rule forO_inv[OF l, where P = "\<lambda>s. node_inv h0 c (snd s)"])
    show "node_inv h0 c (snd st)" by fact
  next
    fix key s s' assume i: "node_inv h0 c (snd s)"
      and "bindO (f (entry (own_entries_h (snd s) (field_h (snd s) schema name)) key) s) (\<lambda>r.
             bindO (assign (field_h (snd (snd r)) (VRef c) name) key (fst r) (snd (snd r))) (\<lambda>h1.
               Returned (fst (snd r), h1))) = Returned s'"
    then obtain r h1 where c: "f (entry (own_entries_h (snd s) (field_h (snd s) schema name)) key) s = Returned r"
      and a: "assign (field_h (snd (snd r)) (VRef c) name) key (fst r) (snd (snd r)) = Returned h1"
      and s': "s' = (fst (snd r), h1)"
      by (auto simp: bindO_Returned)
    from goodD[OF assms(1) c] have p: "prefix (snd s) (snd (snd r))"
      and n: "new_ref (snd s) (snd (snd r)) (fst r)" by simp_all
    from i have "length h0 \<le> length (snd s)" by (simp add: node_inv_def prefix_length)
    note fr = new_ref_fresh[OF n this]
    note i' = inv_prefix[OF i p]
    from inv_assign[OF i' field_fresh[OF i'] fr a] s' show "node_inv h0 c (snd s')" by simp
  qed
qed

lemma convertSubSchema_good: "good (convertSubSchema_h fuel swagger)"
proof (induction fuel)
  case 0
  show ?case by (simp add: good_def)
next
  case (Suc fuel)
  let ?rec = "convertSubSchema_h fuel swagger"
  note g = Suc.IH
  note ge = good_convertEach[OF g]
  have gi: "good (\<lambda>items s. if isArray_h (snd s) items then convertEach_h ?rec items s else ?rec items s)"
    using g ge unfolding good_def by auto
  show ?case unfolding good_def
  proof (intro allI impI)
    fix schema st r
    assume run: "convertSubSchema_h (Suc fuel) swagger schema st = Returned r"
    then have nn: "\<not> nullish_h schema" by (auto split: if_splits)
    let ?h = "snd st"
    show "prefix ?h (snd (snd r)) \<and> new_ref ?h (snd (snd r)) (fst r)"
    proof (cases "truthy_h (field_h ?h schema ''$ref'')")
      case True
      with run nn have "r = (VRef (length ?h), fst st @ [field_h ?h schema ''$ref''],
                             ?h @ [Obj [(''$ref'', field_h ?h schema ''$ref'')]])"
        by (auto simp: alloc_def)
      then show ?thesis by (simp add: new_ref_def)
    next
      case False
      define h1 where "h1 = snd (omit_h omitted_keys schema ?h)"
      define h2 where "h2 = snd (omitBy_h isExtension (fst (omit_h omitted_keys schema ?h)) h1)"
      define picked where "picked = fst (omitBy_h isExtension (fst (omit_h omitted_keys schema ?h)) h1)"
      have p2: "prefix ?h h2" "picked = VRef (length h1)"
        by (simp_all add: h1_def h2_def picked_def omit_h_def omitBy_h_def alloc_def prefix_prefix)
      from run nn False obtain actualSchema h3 h4 h5 s1 s2 s3 s4 s5 s6 s7 s8 s9 where
        cl: "cloneDeep fuel picked h2 = Returned (actualSchema, h3)"
        and f4: "fixExample_h fuel schema swagger actualSchema (fixFileType_h schema actualSchema h3) = Returned h4"
        and f5: "fixNullable_h schema actualSchema h4 = Returned h5"
        and st: "rewrite_h ''allOf'' truthy_h (convertEach_h ?rec) schema actualSchema (fst st, h5) = Returned s1"
          "rewrite_h ''anyOf'' truthy_h (convertEach_h ?rec) schema actualSchema s1 = Returned s2"
          "rewrite_h ''oneOf'' truthy_h (convertEach_h ?rec) schema actualSchema s2 = Returned s3"
          "rewrite_h ''not'' truthy_h ?rec schema actualSchema s3 = Returned s4"
          "rewrite_h ''items'' truthy_h
                 (\<lambda>items s. if isArray_h (snd s) items then convertEach_h ?rec items s else ?rec items s)
                 schema actualSchema s4 = Returned s5"
          "rewrite_h ''additionalItems'' objectLike_h ?rec schema actualSchema s5 = Returned s6"
          "convertProperties_h ''properties'' ?rec schema actualSchema s6 = Returned s7"
          "convertProperties_h ''patternProperties'' ?rec schema actualSchema s7 = Returned s8"
          "rewrite_h ''additionalProperties'' objectLike_h ?rec schema actualSchema s8 = Returned s9"
        and r: "r = (actualSchema, s9)"
        unfolding h1_def h2_def picked_def
        by (auto simp: bindO_Returned split: prod.splits)
      from cloneDeep_fresh[OF cl] p2(2) obtain c where
        a: "actualSchema = VRef c" and p3: "prefix h2 h3"
        and c: "length h2 \<le> c" "c < length h3" and fo: "fresh_obj (length h2) (load h3 c)"
        by (auto simp: new_ref_def split: hval.splits)
      have i3: "node_inv ?h c h3"
        unfolding node_inv_def using p2(1) p3 c fo prefix_length[OF p2(1)]
        by (auto intro: prefix_order.trans fresh_obj_mono)
      note i4 = fixExample_inv[OF fixFileType_inv[OF i3] f4[unfolded a]]
      note i5 = fixNullable_inv[OF i4 f5[unfolded a]]
      note t = st[unfolded a]
      have "node_inv ?h c (snd (fst st, h5))" using i5 by simp
      note j1 = rewrite_inv[OF ge this t(1)]
      note j2 = rewrite_inv[OF ge j1 t(2)]
      note j3 = rewrite_inv[OF ge j2 t(3)]
      note j4 = rewrite_inv[OF g j3 t(4)]
      note j5 = rewrite_inv[OF gi j4 t(5)]
      note j6 = rewrite_inv[OF g j5 t(6)]
      note j7 = convertProperties_inv[OF g j6 t(7)]
      note j8 = convertProperties_inv[OF g j7 t(8)]
      note j9 = rewrite_inv[OF g j8 t(9)]
      from j9 r a show ?thesis by (simp add: node_inv_def new_ref_def)
    qed
  qed
qed


text \<open>
  What holds at each turn of the copying loop: \<^verbatim>\<open>result.definitions\<close>, if it is an
  object, is a cell created since the start and is not the result itself.
\<close>

definition loop_inv :: "heap \<Rightarrow> hval \<Rightarrow> heap \<Rightarrow> bool" where
  "loop_inv h0 result h =
     (prefix h0 h \<and>
      (case field_h h result ''definitions'' of
         VRef d \<Rightarrow> length h0 \<le> d \<and> result \<noteq> VRef d
       | _ \<Rightarrow> True))"

lemma loop_inv_assign:
  assumes "loop_inv h0 result h"
    and "assign (field_h h result ''definitions'') key v h = Returned h'"
  shows "loop_inv h0 result h'"
proof -
  from assms(2) obtain d where d: "field_h h result ''definitions'' = VRef d"
    by (cases "field_h h result ''definitions''") (auto simp: assign_def)
  with assms(1) have p: "prefix h0 h" and n: "length h0 \<le> d" and ne: "result \<noteq> VRef d"
    by (simp_all add: loop_inv_def)
  from d obtain ra where ra: "result = VRef ra"
    by (cases result) (auto simp: field_h_def)
  with ne have nd: "ra \<noteq> d" by simp
  from assms(2) d have "h' = h \<or> (\<exists>ob. h' = store d ob h)"
    by (auto simp: assign_def split: hobj.splits if_splits option.splits)
  then have l: "load h' ra = load h ra" using nd by (auto simp: load_store)
  have "field_h h' result ''definitions'' = VRef d"
    using d l unfolding ra field_h_def by simp
  moreover have "prefix h0 h'"
    using assign_prefix[OF assms(2) p] d n by (simp add: fresh_def)
  ultimately show ?thesis using n ne by (simp add: loop_inv_def)
qed

lemma copyLoop_keeps:
  "copyLoop_h fuel root result references h = Returned h' \<Longrightarrow> prefix h0 h
     \<Longrightarrow> (references \<noteq> [] \<Longrightarrow> loop_inv h0 result h) \<Longrightarrow> prefix h0 h'"
proof (induction fuel arbitrary: references h)
  case 0
  then show ?case by simp
next
  case (Suc fuel)
  show ?case
  proof (cases "references = []")
    case True
    with Suc.prems show ?thesis by simp
  next
    case ne: False
    note i = Suc.prems(3)[OF ne]
    from Suc.prems(1) ne obtain lookup where
      r: "(if entry (own_entries_h h (field_h h result ''definitions'')) (key_of (fst lookup)) = VUndef
            then bindO (findReferences_h fuel h (snd lookup)) (\<lambda>found.
                 bindO (assign (field_h h result ''definitions'') (key_of (fst lookup)) (snd lookup) h) (\<lambda>h1.
                   copyLoop_h fuel root result (butlast references @ found) h1))
            else copyLoop_h fuel root result (butlast references) h) = Returned h'"
      by (auto simp: bindO_Returned)
    show ?thesis
    proof (cases "entry (own_entries_h h (field_h h result ''definitions'')) (key_of (fst lookup)) = VUndef")
      case True
      with r obtain found h1 where
        a: "assign (field_h h result ''definitions'') (key_of (fst lookup)) (snd lookup) h = Returned h1"
        and c: "copyLoop_h fuel root result (butlast references @ found) h1 = Returned h'"
        by (auto simp: bindO_Returned)
      note i1 = loop_inv_assign[OF i a]
      then have "prefix h0 h1" by (simp add: loop_inv_def)
      from Suc.IH[OF c this] i1 show ?thesis by simp
    next
      case False
      with r have c: "copyLoop_h fuel root result (butlast references) h = Returned h'" by simp
      from Suc.IH[OF c Suc.prems(2)] i show ?thesis by simp
    qed
  qed
qed

lemma set_definitions_inv:
  assumes "new_ref h0 h result" and "prefix h0 h"
  shows "loop_inv h0 result (set_field_h result ''definitions'' (VRef (length h)) (h @ [Obj []]))"
proof -
  from assms(1) obtain c where c: "result = VRef c" "length h0 \<le> c" "c < length h"
    by (auto simp: new_ref_def split: hval.splits)
  have p: "prefix h0 (h @ [Obj []])" using assms(2) by (rule prefix_prefix)
  show ?thesis
  proof (cases "load (h @ [Obj []]) c")
    case (Obj kvs)
    then have e: "set_field_h result ''definitions'' (VRef (length h)) (h @ [Obj []])
                 = store c (Obj (AList.update ''definitions'' (VRef (length h)) kvs)) (h @ [Obj []])"
      by (simp add: set_field_h_def c)
    have "field_h (store c (Obj (AList.update ''definitions'' (VRef (length h)) kvs)) (h @ [Obj []]))
                     result ''definitions'' = VRef (length h)"
      using c by (simp add: field_h_def load_store entry_def update_conv')
    then show ?thesis
      unfolding e loop_inv_def using c prefix_store[OF p c(2)] by simp
  next
    case (Arr xs)
    then have "set_field_h result ''definitions'' (VRef (length h)) (h @ [Obj []]) = h @ [Obj []]"
      by (simp add: set_field_h_def c)
    moreover from Arr have "field_h (h @ [Obj []]) result ''definitions'' = VUndef"
      by (simp add: field_h_def c)
    ultimately show ?thesis using p by (simp add: loop_inv_def)
  qed
qed

text \<open>
  A heap with a schema at address 0 (nullable, with an enum at 1, an example at 2 and a
  property at 4 that are references to \<open>A\<close>), and a root at 5 with the definition \<open>A\<close> at
  7; the heap after the conversion, with the result at 13; and the value at an address.
\<close>

definition demo_heap :: heap where
  "demo_heap =
     [Obj [(''type'', VStr ''object''), (''x-nullable'', VBool True), (''enum'', VRef 1),
           (''example'', VRef 2), (''properties'', VRef 3), (''x-note'', VStr ''n'')],
      Arr [VStr ''a''],
      Obj [(''$ref'', VStr ''#/definitions/A'')],
      Obj [(''p'', VRef 4)],
      Obj [(''$ref'', VStr ''#/definitions/A'')],
      Obj [(''definitions'', VRef 6)],
      Obj [(''A'', VRef 7)],
      Obj [(''type'', VStr ''string'')]]"

definition demo_result_heap :: heap where
  "demo_result_heap = demo_heap @
     [Obj [(''type'', VStr ''object''), (''x-nullable'', VBool True), (''enum'', VRef 1),
           (''properties'', VRef 3), (''x-note'', VStr ''n'')],
      Obj [(''type'', VStr ''object''), (''enum'', VRef 1), (''properties'', VRef 3)],
      Arr [VStr ''a'', VNull],
      Obj [(''$ref'', VStr ''#/definitions/A'')],
      Obj [(''p'', VRef 17)],
      Obj [(''type'', VRef 16), (''enum'', VRef 10), (''properties'', VRef 12),
           (''examples'', VRef 15), (''definitions'', VRef 18)],
      Obj [(''type'', VStr ''string'')],
      Arr [VRef 14],
      Arr [VStr ''object'', VStr ''null''],
      Obj [(''$ref'', VStr ''#/definitions/A'')],
      Obj [(''A'', VRef 7)]]"

primrec value_of :: "nat \<Rightarrow> heap \<Rightarrow> hval \<Rightarrow> json" where
  "value_of 0 = (\<lambda>h v. JUndef)"
| "value_of (Suc depth) = (\<lambda>h v.
     case v of
       VUndef \<Rightarrow> JUndef
     | VNull \<Rightarrow> JNull
     | VBool b \<Rightarrow> JBool b
     | VNum n \<Rightarrow> JNum n
     | VStr s \<Rightarrow> JStr s
     | VRef a \<Rightarrow>
         (case load h a of
            Obj kvs \<Rightarrow> JObj (map (\<lambda>kv. (fst kv, value_of depth h (snd kv))) kvs)
          | Arr xs \<Rightarrow> JArr (map (value_of depth h) xs)))"

lemma demo_eval:
  "convertSchema_h 6 (VRef 0) (VRef 5) (VRef 5) True demo_heap = Returned (VRef 13, demo_result_heap)"
  by code_simp

text \<open>On this input the two models compute the same result.\<close>

lemma demo_agrees:
  "convertSchema (value_of 5 demo_heap (VRef 0)) (value_of 5 demo_heap (VRef 5))
     (value_of 5 demo_heap (VRef 5)) True = Inr (value_of 5 demo_result_heap (VRef 13))"
  by code_simp

section \<open>The claims\<close>

text \<open>
  C8.  A reference whose first three segments are \<^verbatim>\<open>#\<close>, \<^verbatim>\<open>definitions\<close> and an id that
  \<^verbatim>\<open>root.definitions\<close> has, whatever segments follow, is resolved with depth 3 to the
  definition under that id, not to the value at the end of the path.  And every lookup that
  succeeds, with any depth or none, returns as id the third segment of the reference
  (\<^verbatim>\<open>undefined\<close> when the reference has only two).
\<close>

theorem lookupReference_depth_and_id:
  "(split (CHR ''/'') s = ''#'' # ''definitions'' # i # rest \<and>
    map_of (own_entries (field root ''definitions'')) i = Some v \<and> v \<noteq> JUndef
      \<longrightarrow> lookupReference (JStr s) root (Some 3) = Inr (Some i, v)) \<and>
   (lookupReference reference root' depth = Inr (i', w)
      \<longrightarrow> (\<exists>s'. reference = JStr s' \<and> i' = third_segment (split (CHR ''/'') s')))"
proof (intro conjI impI)
  assume a: "split (CHR ''/'') s = ''#'' # ''definitions'' # i # rest \<and>
    map_of (own_entries (field root ''definitions'')) i = Some v \<and> v \<noteq> JUndef"
  then have d: "field root ''definitions'' \<noteq> JUndef" "\<not> nullish (field root ''definitions'')"
    by (auto simp: nullish_def)
  then have r: "\<not> nullish root"
    by (cases root) (auto simp: nullish_def)
  have g: "get (field root ''definitions'') i = Inr v"
    using d a by (simp add: get_def)
  show "lookupReference (JStr s) root (Some 3) = Inr (Some i, v)"
    using a r d(1) g by (simp add: lookupReference_def bindE_def)
next
  assume "lookupReference reference root' depth = Inr (i', w)"
  then show "\<exists>s'. reference = JStr s' \<and> i' = third_segment (split (CHR ''/'') s')"
    by (auto simp: lookupReference_def bindE_def third_segment_def
             split: json.splits list.splits if_splits sum.splits)
qed

theorem lookupReference_depth_and_id_witness:
  "lookupReference (JStr ''#/definitions/User/properties/name'') user_root (Some 3)
     = Inr (Some ''User'', user_schema) \<and>
   lookupReference (JStr ''#/definitions/User/properties/name'') user_root None
     = Inr (Some ''User'', name_schema) \<and>
   Some ''User'' = third_segment (split (CHR ''/'') ''#/definitions/User/properties/name'')"
proof -
  have l: "lookupReference (JStr ''#/definitions/User/properties/name'') user_root None
     = Inr (Some ''User'', name_schema)"
    by (simp add: lookupReference_def bindE_def get_def nullish_def user_root_def
                  user_schema_def name_schema_def)
  show ?thesis
    using l lookupReference_depth_and_id
      [of "''#/definitions/User/properties/name''" "''User''" "[''properties'', ''name'']"
          user_root user_schema "JStr ''#/definitions/User/properties/name''" user_root None
          "Some ''User''" name_schema]
    by (simp add: user_root_def user_schema_def name_schema_def)
qed





text \<open>
  C1 (as amended).  When \<^verbatim>\<open>x-nullable\<close> is truthy and the schema, not itself a
  reference, has a truthy \<^verbatim>\<open>type\<close> and an array \<^verbatim>\<open>enum\<close>, both happen: the type
  (\<^verbatim>\<open>string\<close> in place of \<^verbatim>\<open>file\<close>) becomes the pair of itself and \<^verbatim>\<open>null\<close>, and
  \<^verbatim>\<open>null\<close> is appended to the enum unless the enum already contains it.
\<close>

theorem nullable_type_and_enum:
  assumes "convertSubSchema schema references swagger = Inr (res, refs)"
    and "\<not> truthy (field schema ''$ref'')"
    and "truthy (field schema ''x-nullable'')"
    and "truthy (field schema ''type'')"
    and "field schema ''enum'' = JArr xs"
  shows "field res ''type'' =
           JArr [if field schema ''type'' = JStr ''file'' then JStr ''string'' else field schema ''type'',
                 JStr ''null''] \<and>
         field res ''enum'' = JArr (if JNull \<in> set xs then xs else xs @ [JNull])"
proof -
  obtain kvs where kvs: "schema = JObj kvs" using assms(3) truthy_field_obj by blast
  let ?a0 = "fixFileType schema (omitBy isExtension (omit omitted_keys (own_entries schema)))"
  let ?t = "if field schema ''type'' = JStr ''file'' then JStr ''string'' else field schema ''type''"
  from convertSubSchema_steps[OF assms(1,2)] obtain a1 a2 a3 where
    a1: "fixExample schema swagger ?a0 = Inr a1" and a2: "fixNullable schema a1 = Inr a2"
    and res: "res = JObj a3"
    and fr: "\<And>k. k \<notin> set recursion_keys \<Longrightarrow> map_of a3 k = map_of a2 k"
    by blast
  have t0: "map_of ?a0 ''type'' = Some ?t"
    using assms(4) kvs
    by (auto simp: fixFileType_def map_of_update map_of_omit map_of_omitBy omitted_keys_def
                   unsafe_keys_def isExtension_def split: option.splits)
  have e0: "map_of ?a0 ''enum'' = Some (JArr xs)"
    using assms(5) kvs
    by (auto simp: fixFileType_def map_of_update map_of_omit map_of_omitBy omitted_keys_def
                   unsafe_keys_def isExtension_def split: option.splits)
  have t1: "map_of a1 ''type'' = Some ?t" and e1: "map_of a1 ''enum'' = Some (JArr xs)"
    using fixExample_frame[OF a1] t0 e0 by simp_all
  have tt: "truthy ?t" using assms(4) by simp
  have "map_of a2 ''type'' = Some (JArr [?t, JStr ''null'']) \<and>
        map_of a2 ''enum'' = Some (JArr (if JNull \<in> set xs then xs else xs @ [JNull]))"
    using a2 assms(3) t1 e1 tt
    by (auto simp: fixNullable_def Let_def map_of_update includes_null_def push_null_def
             split: if_splits)
  then show ?thesis
    using fr[of "''type''"] fr[of "''enum''"] res by (simp add: recursion_keys_def)
qed



text \<open>The claim as stated fails: with a type and an enum, the enum is extended.\<close>

theorem nullable_enum_modified:
  "convertSubSchema nullable_enum_schema [] JNull = Inr (nullable_enum_result, []) \<and>
   field nullable_enum_result ''enum'' \<noteq> field nullable_enum_schema ''enum''"
  using nullable_enum_eval by (simp add: nullable_enum_result_def nullable_enum_schema_def)


theorem nullable_type_and_enum_witness:
  "convertSubSchema nullable_enum_schema [] JNull = Inr (nullable_enum_result, []) \<and>
   \<not> truthy (field nullable_enum_schema ''$ref'') \<and>
   truthy (field nullable_enum_schema ''x-nullable'') \<and>
   truthy (field nullable_enum_schema ''type'') \<and>
   field nullable_enum_schema ''enum'' = JArr [JStr ''a'', JStr ''b''] \<and>
   field nullable_enum_result ''type'' = JArr [JStr ''string'', JStr ''null''] \<and>
   field nullable_enum_result ''enum'' = JArr [JStr ''a'', JStr ''b'', JNull]"
  using nullable_enum_eval
    nullable_type_and_enum [of nullable_enum_schema "[]" JNull nullable_enum_result "[]" "[JStr ''a'', JStr ''b'']"]
  by (simp add: nullable_enum_schema_def)


text \<open>
  C9 (as amended).  The node converted from a schema that is not a reference never has an
  \<^verbatim>\<open>example\<close> key.  When the schema's \<^verbatim>\<open>example\<close> is truthy, the node's
  \<^verbatim>\<open>examples\<close> is the one-element array of the example dereferenced against the
  Swagger document; when it is falsy, or absent, \<^verbatim>\<open>examples\<close> is what the schema had
  under that key, if anything.
\<close>

theorem example_to_examples:
  assumes "convertSubSchema schema references swagger = Inr (res, refs)"
    and "\<not> truthy (field schema ''$ref'')"
  shows "map_of (own_entries res) ''example'' = None \<and>
         (if truthy (field schema ''example'')
          then \<exists>d. dereference (field schema ''example'') swagger None None = Inr d \<and>
                   map_of (own_entries res) ''examples'' = Some (JArr [d])
          else map_of (own_entries res) ''examples'' = map_of (own_entries schema) ''examples'')"
proof -
  let ?c = "omitBy isExtension (omit omitted_keys (own_entries schema))"
  let ?a0 = "fixFileType schema ?c"
  from convertSubSchema_steps[OF assms(1,2)] obtain a1 a2 a3 where
    a1: "fixExample schema swagger ?a0 = Inr a1" and a2: "fixNullable schema a1 = Inr a2"
    and res: "res = JObj a3"
    and fr: "\<And>k. k \<notin> set recursion_keys \<Longrightarrow> map_of a3 k = map_of a2 k"
    by blast
  have x0: "map_of ?a0 ''example'' = None"
    by (simp add: fixFileType_frame map_of_omitBy map_of_omit omitted_keys_def)
  have s0: "map_of ?a0 ''examples'' = map_of (own_entries schema) ''examples''"
    by (simp add: fixFileType_frame map_of_omitBy map_of_omit omitted_keys_def unsafe_keys_def
                  isExtension_def)
  have x3: "map_of a3 ''example'' = None"
    using fr[of "''example''"] fixNullable_frame[OF a2, of "''example''"]
      fixExample_frame[OF a1, of "''example''"] x0
    by (simp add: recursion_keys_def)
  have s3: "map_of a3 ''examples'' = map_of a1 ''examples''"
    using fr[of "''examples''"] fixNullable_frame[OF a2, of "''examples''"]
    by (simp add: recursion_keys_def)
  show ?thesis
  proof (cases "truthy (field schema ''example'')")
    case True
    with a1 obtain d where "dereference (field schema ''example'') swagger None None = Inr d"
      and "a1 = AList.update ''examples'' (JArr [d]) ?a0"
      by (auto simp: fixExample_def bindE_Inr)
    with True x3 s3 res show ?thesis by (simp add: map_of_update)
  next
    case False
    with a1 have "a1 = ?a0" by (simp add: fixExample_def)
    with False x3 s3 s0 res show ?thesis by simp
  qed
qed


text \<open>The claim as stated fails for an example that is \<^verbatim>\<open>false\<close>: no \<^verbatim>\<open>examples\<close> key.\<close>

theorem falsy_example_dropped:
  "convertSubSchema false_example_schema [] JNull = Inr (JObj [(''type'', JStr ''boolean'')], []) \<and>
   map_of (own_entries (JObj [(''type'', JStr ''boolean'')])) ''examples'' = None"
  using false_example_eval by simp

theorem example_to_examples_witness:
  "convertSubSchema name_example_schema [] user_root =
     Inr (JObj [(''type'', JStr ''object''), (''examples'', JArr [user_schema])], []) \<and>
   \<not> truthy (field name_example_schema ''$ref'') \<and>
   truthy (field name_example_schema ''example'') \<and>
   dereference (field name_example_schema ''example'') user_root None None = Inr user_schema \<and>
   map_of (own_entries (JObj [(''type'', JStr ''object''), (''examples'', JArr [user_schema])]))
     ''example'' = None \<and>
   map_of (own_entries (JObj [(''type'', JStr ''object''), (''examples'', JArr [user_schema])]))
     ''examples'' = Some (JArr [user_schema])"
  using name_example_eval name_example_deref
    example_to_examples [of name_example_schema "[]" user_root
      "JObj [(''type'', JStr ''object''), (''examples'', JArr [user_schema])]" "[]"]
  by (simp add: name_example_schema_def)














text \<open>
  C5.  The schema is a reference to the definition \<open>A\<close>, a string enum that allows
  \<^verbatim>\<open>null\<close>.  \<open>A\<close> contains no reference, so the claim has \<open>convertSchema\<close> return
  \<open>A\<close> itself; but \<open>checkSchemaHasReferences\<close> reads \<^verbatim>\<open>$ref\<close> of every element of
  an array, and throws on the \<^verbatim>\<open>null\<close>.
\<close>

theorem root_reference_null_in_array:
  "convertSchema (JObj [(''$ref'', JStr ''#/definitions/A'')]) null_enum_root null_enum_root True
     = Inl TypeError \<and>
   findReferences (JObj [(''type'', JStr ''string''), (''enum'', JArr [JStr ''a'', JNull])]) = Inr [] \<and>
   checkSchemaHasReferences (JObj [(''type'', JStr ''string''), (''enum'', JArr [JStr ''a'', JNull])])
     = Inl TypeError"
  by code_simp

text \<open>
  C4.  The schema refers to the definition named \<^verbatim>\<open>undefined\<close>, which refers to \<open>B\<close>,
  and to \<^verbatim>\<open>#/definitions\<close>.  The two-segment reference is resolved first; its id is
  \<^verbatim>\<open>undefined\<close>, so the whole definitions object is stored under the key
  \<^verbatim>\<open>undefined\<close>, and the definition of that name is then taken as already copied: it
  is not copied, and \<open>B\<close> is never reached.
\<close>

theorem undefined_key_collision:
  "convertSchema undefined_schema undefined_root undefined_root True =
     Inr (JObj [(''allOf'', JArr [JObj [(''$ref'', JStr ''#/definitions/undefined'')],
                                   JObj [(''$ref'', JStr ''#/definitions'')]]),
                (''definitions'', JObj [(''undefined'', field undefined_root ''definitions'')])])"
  by code_simp



text \<open>
  C7 (as amended).  For a schema with sub-schemas where the grammar has them, no
  \<^verbatim>\<open>$ref\<close>, no \<^verbatim>\<open>x-nullable\<close>, no type \<^verbatim>\<open>file\<close>, no truthy \<^verbatim>\<open>example\<close> and no
  key named \<^verbatim>\<open>__proto__\<close>, \<^verbatim>\<open>constructor\<close> or \<^verbatim>\<open>prototype\<close> at any schema node,
  \<open>convertSchema\<close> returns, for either value of \<open>copyDefinitions\<close>, the schema with the
  extension and Swagger-only keys removed at every schema node: no other key is added,
  removed or changed.
\<close>

theorem plain_schema_pruned:
  assumes "plain schema"
  shows "convertSchema schema root swagger copyDefinitions = Inr (stripKeys schema)"
proof -
  from assms obtain kvs where kvs: "schema = JObj kvs" and nr: "field schema ''$ref'' = JUndef"
    by (rule plain_obj)
  have "field (stripKeys schema) ''$ref'' = JUndef"
  proof (cases "map_of kvs ''$ref''")
    case None
    then show ?thesis using kvs by (rule field_stripKeys_absent[rotated])
  next
    case (Some v)
    then have "v = JUndef" using nr kvs by simp
    have "\<not> removed_key ''$ref''" by (simp add: removed_key_def omitted_keys_def isExtension_def)
    have "stripAt ''$ref'' v = v" by (simp add: stripAt_def)
    have "map_of (map (\<lambda>kv. (fst kv, stripAt (fst kv) (snd kv)))
                        (filter (\<lambda>kv. \<not> removed_key (fst kv)) kvs)) ''$ref'' = Some JUndef"
      using Some \<open>v = JUndef\<close> \<open>\<not> removed_key ''$ref''\<close>
      by (induction kvs) (auto simp: stripAt_def)
    then show ?thesis unfolding kvs stripKeys_obj by simp
  qed
  then show ?thesis
    using convertSubSchema_plain[OF assms, of "[]" swagger] by (simp add: convertSchema_def)
qed


text \<open>
  The claim as stated fails for a schema with a truthy example: the key \<^verbatim>\<open>examples\<close>,
  which the schema does not have, is added.  It fails for a schema with a key named
  \<^verbatim>\<open>constructor\<close>, which is neither an extension nor a Swagger-only key: lodash's
  \<^verbatim>\<open>omitBy\<close> does not copy it.  And it fails for a schema with a string where the grammar
  has an array of schemas: the conversion throws.
\<close>

theorem example_adds_examples:
  "convertSchema example_schema JNull JNull True
     = Inr (JObj [(''type'', JStr ''string''), (''examples'', JArr [JStr ''abc''])]) \<and>
   stripKeys example_schema = JObj [(''type'', JStr ''string'')] \<and>
   convertSchema constructor_schema JNull JNull True = Inr (JObj [(''type'', JStr ''object'')]) \<and>
   stripKeys constructor_schema = constructor_schema \<and>
   convertSchema malformed_schema JNull JNull True = Inl TypeError"
  using example_eval example_strip constructor_eval constructor_strip malformed_eval by simp


theorem plain_schema_pruned_witness:
  "plain annotated_schema \<and>
   convertSchema annotated_schema JNull JNull True = Inr annotated_result"
  using annotated_plain annotated_strip plain_schema_pruned [of annotated_schema JNull JNull True]
  by simp


text \<open>
  C10.  \<open>convertSchema\<close> writes to no object that existed before the call: when a call
  returns, with either value of \<open>copyDefinitions\<close>, the heap of before is a prefix of the
  heap of after, so every cell of before, and with them the schema, the root and the swagger
  document with all that they hold, is what it was.  Every write of the program is to a cell
  created by the call: the clone and the arrays and objects below it, the objects that
  \<open>dereference\<close> builds, and the \<^verbatim>\<open>definitions\<close> map of the result, which receives the
  definitions of the root by their address.
\<close>

theorem arguments_not_mutated:
  assumes "convertSchema_h fuel schema root swagger copyDefinitions h = Returned (result, h')"
  shows "prefix h h'"
proof -
  from assms obtain converted where
    cs: "convertSubSchema_h fuel swagger schema ([], h) = Returned converted"
    and k: "(case converted of (result, references, h1) \<Rightarrow>
     bindO (if copyDefinitions
            then copyLoop_h fuel root result references
                   (if references \<noteq> []
                    then (case alloc (Obj []) h1 of
                            (definitions, h2) \<Rightarrow> set_field_h result ''definitions'' definitions h2)
                    else h1)
            else Returned h1) (\<lambda>h3.
     if truthy_h (field_h h3 result ''$ref'') \<and> copyDefinitions
     then bindO (lookupReference_h h3 (field_h h3 result ''$ref'') root None) (\<lambda>reference.
          bindO (checkSchemaHasReferences_h fuel h3
                   (entry (own_entries_h h3 (field_h h3 result ''definitions'')) (key_of (fst reference)))) (\<lambda>has.
            if \<not> has
            then Returned (entry (own_entries_h h3 (field_h h3 result ''definitions'')) (key_of (fst reference)), h3)
            else (case alloc (Obj [(''$ref'', field_h h3 result ''$ref'')]) h3 of (inner, h4) \<Rightarrow>
                  case alloc (Arr [inner]) h4 of (allOf, h5) \<Rightarrow>
                  Returned (alloc (Obj [(''allOf'', allOf),
                                        (''definitions'', field_h h3 result ''definitions'')]) h5))))
     else Returned (result, h3))) = Returned (result, h')"
    unfolding convertSchema_h_def bindO_Returned by blast
  obtain node references h1 where c: "converted = (node, references, h1)" by (cases converted)
  from goodD[OF convertSubSchema_good cs] c
  have p1: "prefix h h1" and n: "new_ref h h1 node" by simp_all
  from k[unfolded c prod.case bindO_Returned] obtain h3 where
    loop: "(if copyDefinitions
            then copyLoop_h fuel root node references
                   (if references \<noteq> []
                    then (case alloc (Obj []) h1 of
                            (definitions, h2) \<Rightarrow> set_field_h node ''definitions'' definitions h2)
                    else h1)
            else Returned h1) = Returned h3"
    and fin: "(if truthy_h (field_h h3 node ''$ref'') \<and> copyDefinitions
     then bindO (lookupReference_h h3 (field_h h3 node ''$ref'') root None) (\<lambda>reference.
          bindO (checkSchemaHasReferences_h fuel h3
                   (entry (own_entries_h h3 (field_h h3 node ''definitions'')) (key_of (fst reference)))) (\<lambda>has.
            if \<not> has
            then Returned (entry (own_entries_h h3 (field_h h3 node ''definitions'')) (key_of (fst reference)), h3)
            else (case alloc (Obj [(''$ref'', field_h h3 node ''$ref'')]) h3 of (inner, h4) \<Rightarrow>
                  case alloc (Arr [inner]) h4 of (allOf, h5) \<Rightarrow>
                  Returned (alloc (Obj [(''allOf'', allOf),
                                        (''definitions'', field_h h3 node ''definitions'')]) h5))))
     else Returned (node, h3)) = Returned (result, h')"
    by blast
  have p3: "prefix h h3"
  proof (cases copyDefinitions)
    case False
    with loop p1 show ?thesis by simp
  next
    case True
    show ?thesis
    proof (cases "references = []")
      case e: True
      with loop True have "copyLoop_h fuel root node [] h1 = Returned h3" by simp
      from copyLoop_keeps[OF this p1] show ?thesis by simp
    next
      case ne: False
      with loop True have l: "copyLoop_h fuel root node references
             (set_field_h node ''definitions'' (VRef (length h1)) (h1 @ [Obj []])) = Returned h3"
        by (simp add: alloc_def)
      note i = set_definitions_inv[OF n p1]
      then have "prefix h (set_field_h node ''definitions'' (VRef (length h1)) (h1 @ [Obj []]))"
        by (simp add: loop_inv_def)
      from copyLoop_keeps[OF l this] i show ?thesis by simp
    qed
  qed
  have "prefix h3 h'"
    using fin by (auto simp: bindO_Returned alloc_def prefix_def split: if_splits)
  with p3 show ?thesis by (rule prefix_order.trans)
qed


theorem arguments_not_mutated_witness:
  "convertSchema_h 6 (VRef 0) (VRef 5) (VRef 5) True demo_heap = Returned (VRef 13, demo_result_heap) \<and>
   prefix demo_heap demo_result_heap \<and>
   load demo_result_heap 1 = Arr [VStr ''a''] \<and>
   load demo_result_heap 10 = Arr [VStr ''a'', VNull]"
  using demo_eval
    arguments_not_mutated [of 6 "VRef 0" "VRef 5" "VRef 5" True demo_heap "VRef 13" demo_result_heap]
  by (simp add: demo_heap_def demo_result_heap_def load_def)


end
